theory Spec2Isabelle
  imports Complex_Main "HOL-Library.Sublist"
begin

section \<open>JavaScript strings and the string operations used by the task runner\<close>

text \<open>
  A JavaScript string is a sequence of UTF-16 code units. A code unit is modelled by its
  number; a string is the list of its code units. Literals of the source are written
  with \<open>js\<close>, which maps each character of an Isabelle string to its code.
\<close>

type_synonym jsstr = "nat list"

definition js :: "string \<Rightarrow> jsstr" where
  "js s = map of_char s"

subsection \<open>Regular expressions with backtracking\<close>

text \<open>
  The fragment of the regular expression language that \<open>gulpfile.js\<close> uses: character
  classes (a list of inclusive code unit ranges), sequence, the greedy quantifiers
  \<open>?\<close> and \<open>*\<close>, and the empty pattern. The bounded quantifier \<open>{m,n}\<close> is
  unfolded by \<open>rep\<close> into nested greedy options.
\<close>

datatype re = Eps | Cls "(nat \<times> nat) list" | Seq re re | Opt re | Star re

definition in_cls :: "(nat \<times> nat) list \<Rightarrow> nat \<Rightarrow> bool" where
  "in_cls rs c = list_ex (\<lambda>(lo, hi). lo \<le> c \<and> c \<le> hi) rs"

fun rep_upto :: "nat \<Rightarrow> re \<Rightarrow> re" where
  "rep_upto 0 r = Eps"
| "rep_upto (Suc n) r = Opt (Seq r (rep_upto n r))"

fun rep :: "nat \<Rightarrow> nat \<Rightarrow> re \<Rightarrow> re" where
  "rep 0 hi r = rep_upto hi r"
| "rep (Suc lo) hi r = Seq r (rep lo (hi - 1) r)"

text \<open>
  \<open>bt r s\<close> lists, in the order in which a backtracking matcher tries them, the
  remainders of \<open>s\<close> after each way of matching \<open>r\<close> at the start of \<open>s\<close>. The
  match that \<open>exec\<close> reports at this position is the head of the list; the empty list
  means that \<open>r\<close> does not match here. An iteration of \<open>*\<close> that consumes nothing is
  rejected, as in the language definition.
\<close>

function bt :: "re \<Rightarrow> jsstr \<Rightarrow> jsstr list" where
  "bt Eps s = [s]"
| "bt (Cls rs) s = (case s of [] \<Rightarrow> [] | c # cs \<Rightarrow> if in_cls rs c then [cs] else [])"
| "bt (Seq a b) s = concat (map (bt b) (bt a s))"
| "bt (Opt a) s = bt a s @ [s]"
| "bt (Star a) s =
     concat (map (bt (Star a)) (filter (\<lambda>t. length t < length s) (bt a s))) @ [s]"
  by pat_completeness auto
termination
  by (relation "measures [\<lambda>(r, s). size r, \<lambda>(r, s). length s]") auto

text \<open>
  \<open>String.prototype.replace\<close> with a global regular expression and a replacement
  string without \<open>$\<close> patterns: scan from the left; where the expression matches,
  emit the replacement and go on behind the match (after an empty match the next
  code unit is copied); where it does not, copy one code unit.
\<close>

function replace_all :: "re \<Rightarrow> jsstr \<Rightarrow> jsstr \<Rightarrow> jsstr" where
  "replace_all r new s =
     (case bt r s of
        [] \<Rightarrow> (case s of [] \<Rightarrow> [] | c # cs \<Rightarrow> c # replace_all r new cs)
      | t # _ \<Rightarrow>
          if length t < length s then new @ replace_all r new t
          else new @ (case s of [] \<Rightarrow> [] | c # cs \<Rightarrow> c # replace_all r new cs))"
  by pat_completeness auto
termination
  by (relation "measure (\<lambda>(r, new, s). length s)") auto

text \<open>
  \<open>String.prototype.split\<close> with a regular expression without groups and without a
  limit. \<open>acc\<close> holds, reversed, the code units since the end of the last separator
  (position \<open>p\<close> of the language definition), the last argument is the text from the
  current position \<open>q\<close>. A match that ends at \<open>p\<close> is skipped.
\<close>

function split_go :: "re \<Rightarrow> jsstr \<Rightarrow> jsstr \<Rightarrow> jsstr list" where
  "split_go r acc s =
     (case s of
        [] \<Rightarrow> [rev acc]
      | c # cs \<Rightarrow>
         (case bt r s of
            [] \<Rightarrow> split_go r (c # acc) cs
          | t # _ \<Rightarrow>
              if length t < length s then rev acc # split_go r [] t
              else if acc = [] then split_go r (c # acc) cs
              else rev acc # split_go r [] s))"
  by pat_completeness auto
termination
  by (relation "measures [\<lambda>(r, acc, s). length s, \<lambda>(r, acc, s). length acc]") auto

definition split_re :: "re \<Rightarrow> jsstr \<Rightarrow> jsstr list" where
  "split_re r s = (if s = [] then (if bt r [] = [] then [[]] else []) else split_go r [] s)"

text \<open>
  \<open>String.prototype.split\<close> with a separator string of one code unit, as in
  \<open>split(':')\<close> and \<open>split('(')\<close>.
\<close>

fun split_chr :: "nat \<Rightarrow> jsstr \<Rightarrow> jsstr list" where
  "split_chr d [] = [[]]"
| "split_chr d (c # cs) =
     (if c = d then [] # split_chr d cs
      else (case split_chr d cs of [] \<Rightarrow> [[c]] | l # ls \<Rightarrow> (c # l) # ls))"

text \<open>
  Reading an array element: an index beyond the end gives \<open>undefined\<close>, here \<open>None\<close>.
\<close>

definition nth_opt :: "'a list \<Rightarrow> nat \<Rightarrow> 'a option" where
  "nth_opt xs i = (if i < length xs then Some (xs ! i) else None)"

text \<open>
  \<open>String.prototype.trim\<close> removes the leading and trailing code units that are
  \<open>WhiteSpace\<close> or \<open>LineTerminator\<close> of the language: TAB, LF, VT, FF, CR, SP, NBSP,
  U+1680, U+2000 to U+200A, LS, PS, U+202F, U+205F, U+3000 and the byte order mark.
\<close>

definition is_ws :: "nat \<Rightarrow> bool" where
  "is_ws c = in_cls [(0x09, 0x0D), (0x20, 0x20), (0xA0, 0xA0), (0x1680, 0x1680),
     (0x2000, 0x200A), (0x2028, 0x2029), (0x202F, 0x202F), (0x205F, 0x205F),
     (0x3000, 0x3000), (0xFEFF, 0xFEFF)] c"

definition trim :: "jsstr \<Rightarrow> jsstr" where
  "trim s = rev (dropWhile is_ws (rev (dropWhile is_ws s)))"

section \<open>The coverage badge generator of task \<open>test:e2e\<close>\<close>

subsection \<open>Extracting the percentage\<close>

definition chr1 :: "char \<Rightarrow> nat \<times> nat" where
  "chr1 c = (of_char c, of_char c)"

definition chr_range :: "char \<Rightarrow> char \<Rightarrow> nat \<times> nat" where
  "chr_range a b = (of_char a, of_char b)"

definition digit :: re where
  "digit = Cls [chr_range CHR ''0'' CHR ''9'']"

text \<open>
  The expression \<open>rx\<close> of lines 166 to 169:
  \<^verbatim>\<open>[\u001b\u009b][[()#;?]*(?:[0-9]{1,4}(?:;[0-9]{0,4})*)?[0-9A-ORZcf-nqry=><]\<close>
\<close>

definition rx :: re where
  "rx =
     Seq (Cls [(0x1B, 0x1B), (0x9B, 0x9B)])
    (Seq (Star (Cls [chr1 CHR ''['', chr1 CHR ''('', chr1 CHR '')'', chr1 CHR ''#'',
                     chr1 CHR '';'', chr1 CHR ''?'']))
    (Seq (Opt (Seq (rep 1 4 digit) (Star (Seq (Cls [chr1 CHR '';'']) (rep 0 4 digit)))))
         (Cls [chr_range CHR ''0'' CHR ''9'', chr_range CHR ''A'' CHR ''O'', chr1 CHR ''R'',
               chr1 CHR ''Z'', chr1 CHR ''c'', chr_range CHR ''f'' CHR ''n'', chr1 CHR ''q'',
               chr1 CHR ''r'', chr1 CHR ''y'', chr1 CHR ''='', chr1 CHR ''>'',
               chr1 CHR ''<''])))"

text \<open>The expression \<open>/\r?\n/\<close> of line 175.\<close>

definition newline_re :: re where
  "newline_re = Seq (Opt (Cls [(0x0D, 0x0D)])) (Cls [(0x0A, 0x0A)])"

text \<open>
  What the chain of lines 170 to 178 throws: \<open>readFileSync\<close> throws when the file
  cannot be read, and calling \<open>split\<close> on \<open>undefined\<close> is a \<open>TypeError\<close>.
\<close>

datatype error = ReadError | TypeError | ReferenceError | UnhandledError

text \<open>
  The file system is the content of \<open>./coverage/report/coverage.txt\<close>, decoded, or
  \<open>None\<close> when the file cannot be read.
\<close>

definition extract_coverage :: "jsstr option \<Rightarrow> error + jsstr" where
  "extract_coverage file =
     (case file of
        None \<Rightarrow> Inl ReadError
      | Some text \<Rightarrow>
         (case nth_opt (split_re newline_re (replace_all rx [] text)) 2 of
            None \<Rightarrow> Inl TypeError
          | Some line \<Rightarrow>
             (case nth_opt (split_chr (of_char CHR '':'') line) 1 of
                None \<Rightarrow> Inl TypeError
              | Some seg \<Rightarrow>
                 (case nth_opt (split_chr (of_char CHR ''('') seg) 0 of
                    None \<Rightarrow> Inl TypeError
                  | Some pct \<Rightarrow> Inr (trim pct)))))"

subsection \<open>Numbers and \<open>parseFloat\<close>\<close>

text \<open>
  A Number is a double: not-a-number, an infinity, or a finite value, here the rational
  it denotes (the two zeros are compared equal by \<open><\<close> and are not distinguished).
\<close>

datatype jsnum = NaN | PInf | NInf | Fin rat

text \<open>The comparison \<open>x < y\<close> of two Numbers: false as soon as one is NaN.\<close>

fun js_lt :: "jsnum \<Rightarrow> jsnum \<Rightarrow> bool" where
  "js_lt NaN y = False"
| "js_lt x NaN = False"
| "js_lt PInf y = False"
| "js_lt NInf y = (y \<noteq> NInf)"
| "js_lt (Fin a) PInf = True"
| "js_lt (Fin a) NInf = False"
| "js_lt (Fin a) (Fin b) = (a < b)"

fun js_neg :: "jsnum \<Rightarrow> jsnum" where
  "js_neg NaN = NaN"
| "js_neg PInf = NInf"
| "js_neg NInf = PInf"
| "js_neg (Fin a) = Fin (- a)"

text \<open>
  The Number value of a decimal literal is its mathematical value rounded to the nearest
  double, ties to even, as V8 computes it for literals of any length.
  \<open>to_double n d\<close> rounds the rational \<open>n / d\<close>.
  \<open>floor_log2 n d\<close> is the binary exponent of \<open>n / d\<close>; below \<open>2\<^sup>-\<^sup>1\<^sup>0\<^sup>2\<^sup>2\<close> the
  doubles are subnormal and keep the exponent \<open>-1022\<close>; the significand has 53 bits.
\<close>

function lg_up :: "nat \<Rightarrow> nat \<Rightarrow> nat" where
  "lg_up n d = (if 0 < d \<and> 2 * d \<le> n then Suc (lg_up n (2 * d)) else 0)"
  by pat_completeness auto
termination
  by (relation "measure (\<lambda>(n, d). n - d)") auto

function lg_down :: "nat \<Rightarrow> nat \<Rightarrow> nat" where
  "lg_down n d = (if 0 < n \<and> n < d then Suc (lg_down (2 * n) d) else 0)"
  by pat_completeness auto
termination
  by (relation "measure (\<lambda>(n, d). d - n)") auto

definition floor_log2 :: "nat \<Rightarrow> nat \<Rightarrow> int" where
  "floor_log2 n d = (if d \<le> n then int (lg_up n d) else - int (lg_down n d))"

definition round_half_even :: "nat \<Rightarrow> nat \<Rightarrow> nat" where
  "round_half_even n d =
     (let q = n div d; r = n mod d
      in if 2 * r < d then q else if d < 2 * r then q + 1
         else if even q then q else q + 1)"

definition to_double :: "nat \<Rightarrow> nat \<Rightarrow> jsnum" where
  "to_double n d =
     (if n = 0 then Fin 0
      else
        let e = max (floor_log2 n d) (- 1022);
            m = (if e \<le> 52 then round_half_even (n * 2 ^ nat (52 - e)) d
                 else round_half_even n (d * 2 ^ nat (e - 52)));
            v = (if 52 \<le> e then of_nat (m * 2 ^ nat (e - 52))
                 else of_nat m / 2 ^ nat (52 - e))
        in if 2 ^ 1024 \<le> v then PInf else Fin v)"

text \<open>
  The longest prefix that is a \<open>StrDecimalLiteral\<close>: an optional sign, then
  \<open>Infinity\<close>, or digits with an optional fraction and an optional exponent part (an
  \<open>e\<close> counts only when digits follow it). \<open>Decimal m k\<close> stands for \<open>m \<times> 10\<^sup>k\<close>.
\<close>

definition is_digit :: "nat \<Rightarrow> bool" where
  "is_digit c = (of_char CHR ''0'' \<le> c \<and> c \<le> of_char CHR ''9'')"

definition digits_val :: "jsstr \<Rightarrow> nat" where
  "digits_val ds = foldl (\<lambda>a c. 10 * a + (c - of_char CHR ''0'')) 0 ds"

datatype literal = Infinity_lit | Decimal nat int

definition signed_integer :: "jsstr \<Rightarrow> int" where
  "signed_integer s =
     (case s of
        [] \<Rightarrow> 0
      | c # cs \<Rightarrow>
          if c = of_char CHR ''+'' \<and> cs \<noteq> [] \<and> is_digit (hd cs)
            then int (digits_val (takeWhile is_digit cs))
          else if c = of_char CHR ''-'' \<and> cs \<noteq> [] \<and> is_digit (hd cs)
            then - int (digits_val (takeWhile is_digit cs))
          else if is_digit c then int (digits_val (takeWhile is_digit s))
          else 0)"

definition exponent_part :: "jsstr \<Rightarrow> int" where
  "exponent_part s =
     (case s of
        [] \<Rightarrow> 0
      | c # cs \<Rightarrow>
          if c = of_char CHR ''e'' \<or> c = of_char CHR ''E'' then signed_integer cs else 0)"

definition unsigned_literal :: "jsstr \<Rightarrow> literal option" where
  "unsigned_literal s =
     (if take 8 s = js ''Infinity'' then Some Infinity_lit
      else
        let ip = takeWhile is_digit s; r = dropWhile is_digit s
        in if r \<noteq> [] \<and> hd r = of_char CHR ''.'' then
             let fp = takeWhile is_digit (tl r); r' = dropWhile is_digit (tl r)
             in if ip = [] \<and> fp = [] then None
                else Some (Decimal (digits_val (ip @ fp))
                             (exponent_part r' - int (length fp)))
           else if ip = [] then None
           else Some (Decimal (digits_val ip) (exponent_part r)))"

definition numeric_prefix :: "jsstr \<Rightarrow> (bool \<times> literal) option" where
  "numeric_prefix s =
     (case dropWhile is_ws s of
        [] \<Rightarrow> None
      | c # cs \<Rightarrow>
          if c = of_char CHR ''-'' then map_option (Pair True) (unsigned_literal cs)
          else if c = of_char CHR ''+'' then map_option (Pair False) (unsigned_literal cs)
          else map_option (Pair False) (unsigned_literal (c # cs)))"

fun literal_value :: "literal \<Rightarrow> jsnum" where
  "literal_value Infinity_lit = PInf"
| "literal_value (Decimal m k) =
     (if 0 \<le> k then to_double (m * 10 ^ nat k) 1 else to_double m (10 ^ nat (- k)))"

definition parseFloat :: "jsstr \<Rightarrow> jsnum" where
  "parseFloat s =
     (case numeric_prefix s of
        None \<Rightarrow> NaN
      | Some (negative, l) \<Rightarrow> if negative then js_neg (literal_value l) else literal_value l)"

subsection \<open>Colour and badge address\<close>

text \<open>Lines 179 to 183.\<close>

definition color_of :: "jsstr \<Rightarrow> jsstr" where
  "color_of coverage =
     (if js_lt (parseFloat coverage) (Fin 90) then js ''red'' else js ''green'')"

text \<open>Lines 185 to 187; the expression \<open>/%/g\<close> is a class of one character.\<close>

definition badge_url :: "jsstr \<Rightarrow> jsstr \<Rightarrow> jsstr" where
  "badge_url coverage color =
     js ''https://img.shields.io/badge/coverage-'' @
     replace_all (Cls [chr1 CHR ''%'']) (js ''%25'') coverage @
     js ''-'' @ color @ js ''.svg''"

section \<open>Processes\<close>

text \<open>
  A task runs inside the Node process. What the process does is recorded as a trace of
  effects; \<open>process.exit\<close> and an uncaught exception end it, and nothing that the
  source writes after them is executed: every statement below acts on a running process
  only.
\<close>

datatype response = ErrorObject jsstr | IncomingMessage jsstr

datatype effect =
    ConsoleLog jsstr
  | ConsoleError response
  | GutilLog jsstr
  | SetTimeout nat
  | HttpGet jsstr
  | PipeToFile jsstr
  | WriteFile jsstr jsstr
  | ServerStop
  | TaskDone

datatype status = Running | Exited nat | Uncaught error

record process =
  status :: status
  trace :: "effect list"

definition perform :: "effect \<Rightarrow> 'a process_scheme \<Rightarrow> 'a process_scheme" where
  "perform e p = (if status p = Running then p\<lparr>trace := trace p @ [e]\<rparr> else p)"

definition process_exit :: "nat \<Rightarrow> 'a process_scheme \<Rightarrow> 'a process_scheme" where
  "process_exit code p = (if status p = Running then p\<lparr>status := Exited code\<rparr> else p)"

definition throw :: "error \<Rightarrow> 'a process_scheme \<Rightarrow> 'a process_scheme" where
  "throw err p = (if status p = Running then p\<lparr>status := Uncaught err\<rparr> else p)"

definition listen ::
  "('a process_scheme \<Rightarrow> 'a process_scheme) \<Rightarrow> 'a process_scheme \<Rightarrow> 'a process_scheme" where
  "listen register p = (if status p = Running then register p else p)"

text \<open>A block of statements, executed from the first to the last.\<close>

definition seq :: "('s \<Rightarrow> 's) list \<Rightarrow> 's \<Rightarrow> 's" where
  "seq stmts p = fold (\<lambda>stmt. stmt) stmts p"

subsection \<open>Task \<open>test:e2e\<close>\<close>

text \<open>
  The process of \<open>test:e2e\<close> remembers which callbacks are registered and still to
  come: the \<open>once\<close> listeners of the test stream, the timer of line 160, the callback
  of \<open>http.get\<close> and the \<open>finish\<close> listener of the file stream. Its environment
  is the variable \<open>TRAVIS\<close> and the content of the coverage report.
\<close>

record e2e_process = process +
  error_listener :: bool
  end_listener :: bool
  timer :: bool
  request :: bool
  finish_listener :: bool

record environment =
  travis :: bool
  coverage_txt :: "jsstr option"

text \<open>Lines 189 to 198, the callback of \<open>http.get\<close>.\<close>

definition on_response :: "response \<Rightarrow> e2e_process \<Rightarrow> e2e_process" where
  "on_response response =
     seq [
       (case response of
          ErrorObject msg \<Rightarrow> seq [perform (ConsoleError response), process_exit 0]
        | IncomingMessage body \<Rightarrow> seq []),
       perform (PipeToFile (js ''test-coverage.svg'')),
       listen (\<lambda>p. p\<lparr>finish_listener := True\<rparr>)]"

text \<open>
  Lines 158 to 199, the listener of \<open>end\<close>. The messages are logged without the
  styling that \<open>chalk\<close> adds.
\<close>

definition on_end :: "environment \<Rightarrow> e2e_process \<Rightarrow> e2e_process" where
  "on_end env =
     seq [
       (if travis env
        then seq [perform (SetTimeout 500), listen (\<lambda>p. p\<lparr>timer := True\<rparr>)]
        else seq []),
       perform (ConsoleLog (js ''Generating badge...'')),
       (case extract_coverage (coverage_txt env) of
          Inl err \<Rightarrow> throw err
        | Inr coverage \<Rightarrow>
            seq [perform (HttpGet (badge_url coverage (color_of coverage))),
                 listen (\<lambda>p. p\<lparr>request := True\<rparr>)])]"

text \<open>Lines 152 to 158, the body of the task.\<close>

definition task_e2e :: "e2e_process \<Rightarrow> e2e_process" where
  "task_e2e =
     seq [
       perform (ConsoleLog ([0x0A] @ js ''Starting end-to-end tests...'' @ [0x0A])),
       listen (\<lambda>p. p\<lparr>error_listener := True\<rparr>),
       listen (\<lambda>p. p\<lparr>end_listener := True\<rparr>)]"

text \<open>
  The events that reach the process, and the callback each one runs. A \<open>once\<close>
  listener is removed before it is called; an \<open>error\<close> event without a listener is
  thrown.
\<close>

datatype event = Error_event | End_event | Timeout | Response response | Finish

definition deliver :: "environment \<Rightarrow> event \<Rightarrow> e2e_process \<Rightarrow> e2e_process" where
  "deliver env ev p =
     (if status p \<noteq> Running then p
      else case ev of
        Error_event \<Rightarrow>
          if error_listener p then process_exit 1 (p\<lparr>error_listener := False\<rparr>)
          else throw UnhandledError p
      | End_event \<Rightarrow>
          if end_listener p then on_end env (p\<lparr>end_listener := False\<rparr>) else p
      | Timeout \<Rightarrow>
          if timer p then process_exit 0 (p\<lparr>timer := False\<rparr>) else p
      | Response r \<Rightarrow>
          if request p then on_response r (p\<lparr>request := False\<rparr>) else p
      | Finish \<Rightarrow>
          if finish_listener p then process_exit 0 (p\<lparr>finish_listener := False\<rparr>) else p)"

definition e2e_start :: e2e_process where
  "e2e_start = \<lparr>status = Running, trace = [], error_listener = False, end_listener = False,
     timer = False, request = False, finish_listener = False\<rparr>"

definition run_e2e :: "environment \<Rightarrow> event list \<Rightarrow> e2e_process" where
  "run_e2e env evs = fold (deliver env) evs (task_e2e e2e_start)"

subsection \<open>Task \<open>build\<close>\<close>

text \<open>
  The stream that \<open>bundle()\<close> returns emits chunks, errors and its end. \<open>pipe\<close>
  forwards the chunks to the next stage, \<open>source('gauge.js')\<close>, ends that stage when
  the stream ends, and then stops forwarding.
\<close>

record build_process = process +
  bundle_error_listener :: bool
  piped :: bool
  received :: "jsstr list"
  ended :: bool

datatype bundle_event = Data jsstr | Bundle_error jsstr | Bundle_end

text \<open>
  Lines 74 to 81, the stages behind the bundle stream. When \<open>source('gauge.js')\<close> is
  ended, \<open>buffer()\<close> joins what it has received into one file, \<open>rename\<close> names it
  \<open>gauge.min.js\<close>, \<open>uglify()\<close> minifies it between \<open>sourcemaps.init\<close> and
  \<open>sourcemaps.write('.')\<close>, and \<open>gulp.dest('.')\<close> writes the minified file and its
  map (the order of the two writes is of no consequence here). The minifier is not part
  of \<open>gulpfile.js\<close> and is a parameter: it gives the minified text and the map, or
  \<open>None\<close> for a text it cannot parse. In that case the stream of \<open>uglify()\<close> emits an
  error; no listener is registered on that stream, so the error is thrown.
\<close>

type_synonym minifier = "jsstr \<Rightarrow> (jsstr \<times> jsstr) option"

definition flush :: "minifier \<Rightarrow> build_process \<Rightarrow> build_process" where
  "flush uglify p =
     (case uglify (concat (received p)) of
        None \<Rightarrow> throw UnhandledError p
      | Some (code, srcmap) \<Rightarrow>
          seq [perform (WriteFile (js ''gauge.min.js'') code),
               perform (WriteFile (js ''gauge.min.js.map'') srcmap)] p)"

definition emit_end :: "minifier \<Rightarrow> build_process \<Rightarrow> build_process" where
  "emit_end uglify p =
     (if status p = Running \<and> piped p
      then flush uglify (p\<lparr>piped := False, ended := True\<rparr>)
      else p)"

text \<open>Lines 70 to 73.\<close>

definition bundle_on_error :: "minifier \<Rightarrow> jsstr \<Rightarrow> build_process \<Rightarrow> build_process" where
  "bundle_on_error uglify err = seq [perform (GutilLog err), emit_end uglify]"

definition emit :: "minifier \<Rightarrow> bundle_event \<Rightarrow> build_process \<Rightarrow> build_process" where
  "emit uglify ev p =
     (if status p \<noteq> Running then p
      else case ev of
        Data chunk \<Rightarrow> if piped p then p\<lparr>received := received p @ [chunk]\<rparr> else p
      | Bundle_error err \<Rightarrow>
          if bundle_error_listener p then bundle_on_error uglify err p
          else throw UnhandledError p
      | Bundle_end \<Rightarrow> emit_end uglify p)"

definition build_start :: build_process where
  "build_start = \<lparr>status = Running, trace = [], bundle_error_listener = False,
     piped = False, received = [], ended = False\<rparr>"



subsection \<open>Task \<open>test:spec\<close>\<close>

text \<open>
  The variable \<open>server\<close> of line 127 is declared with \<open>let\<close> and receives what
  \<open>start()\<close> returns. Until then it is uninitialised, and reading it throws. Its value
  is \<open>undefined\<close>, a handle with a method \<open>stop\<close>, or another object.
\<close>

datatype server_value = Undefined | Handle | Other_object

datatype binding = Uninitialised | Bound server_value

text \<open>
  Lines 130 to 133, the callback given to the Karma server. Karma calls it with the exit
  code of the test run; the callback declares no parameter.
\<close>

definition karma_callback :: "binding \<Rightarrow> nat \<Rightarrow> process \<Rightarrow> process" where
  "karma_callback server exit_code =
     seq [
       (case server of
          Uninitialised \<Rightarrow> throw ReferenceError
        | Bound Undefined \<Rightarrow> seq []
        | Bound Handle \<Rightarrow> perform ServerStop
        | Bound Other_object \<Rightarrow> throw TypeError),
       perform TaskDone]"

section \<open>The task graph\<close>

text \<open>
  \<open>gulp.task(name, deps, fn)\<close> registers a task under its name; a later registration
  of the same name replaces the earlier one. Of the action only what matters to the
  order of tasks is kept: whether it calls \<open>gulp.start\<close>.
\<close>

datatype action = Body | Gulp_start string | No_action

type_synonym registry = "string \<Rightarrow> (string list \<times> action) option"

definition gulp_task :: "string \<Rightarrow> string list \<Rightarrow> action \<Rightarrow> registry \<Rightarrow> registry" where
  "gulp_task name deps act reg = reg(name \<mapsto> (deps, act))"

text \<open>The registrations of \<open>gulpfile.js\<close>, in the order of the file.\<close>

definition gulpfile :: registry where
  "gulpfile =
     seq [
       gulp_task ''help'' [] Body,
       gulp_task ''clean'' [] Body,
       gulp_task ''doc'' [] Body,
       gulp_task ''build'' [''clean''] Body,
       gulp_task ''watch'' [''build''] Body,
       gulp_task ''gzip'' [''build''] Body,
       gulp_task ''lint'' [] Body,
       gulp_task ''test:spec'' [''lint''] Body,
       gulp_task ''test:e2e'' [] Body,
       gulp_task ''test'' [''test:spec''] (Gulp_start ''test:e2e''),
       gulp_task ''default'' [''help''] No_action]
     Map.empty"

definition prerequisites :: "registry \<Rightarrow> string \<Rightarrow> string list option" where
  "prerequisites reg name = map_option fst (reg name)"

definition action_of :: "registry \<Rightarrow> string \<Rightarrow> action option" where
  "action_of reg name = map_option snd (reg name)"

text \<open>
  Modelled from the spec: the scheduler is gulp's own and not part of \<open>gulpfile.js\<close>.
  Running a task executes every transitive prerequisite once, each one finished before
  a task that depends on it starts; a task whose action chains to another task starts
  that task's run from its action; a failed task ends the run. \<open>sequence\<close> orders the
  tasks, \<open>execute\<close> runs them; both count their nesting depth down to stay total.
\<close>

fun sequence :: "nat \<Rightarrow> registry \<Rightarrow> string list \<Rightarrow> string list \<Rightarrow> string list option" where
  "sequence 0 reg names done = None"
| "sequence (Suc n) reg [] done = Some done"
| "sequence (Suc n) reg (t # ts) done =
     (if t \<in> set done then sequence (Suc n) reg ts done
      else case reg t of
        None \<Rightarrow> None
      | Some (deps, act) \<Rightarrow>
         (case sequence n reg deps done of
            None \<Rightarrow> None
          | Some done' \<Rightarrow> sequence (Suc n) reg ts (done' @ [t])))"

datatype run_event = Started string | Finished string | Failed string

definition aborted :: "run_event list \<Rightarrow> bool" where
  "aborted evs = (case rev evs of Failed t # _ \<Rightarrow> True | _ \<Rightarrow> False)"

fun execute ::
  "nat \<Rightarrow> registry \<Rightarrow> (string \<Rightarrow> bool) \<Rightarrow> string list \<Rightarrow> run_event list option" where
  "execute 0 reg fails ts = None"
| "execute (Suc n) reg fails [] = Some []"
| "execute (Suc n) reg fails (t # ts) =
     (if fails t then Some [Started t, Failed t]
      else case reg t of
        None \<Rightarrow> None
      | Some (deps, act) \<Rightarrow>
         (case (case act of
                  Gulp_start u \<Rightarrow>
                    (case sequence n reg [u] [] of
                       None \<Rightarrow> None
                     | Some order \<Rightarrow> execute n reg fails order)
                | _ \<Rightarrow> Some []) of
            None \<Rightarrow> None
          | Some inner \<Rightarrow>
              if aborted inner then Some (Started t # inner)
              else (case execute (Suc n) reg fails ts of
                      None \<Rightarrow> None
                    | Some rest \<Rightarrow> Some (Started t # inner @ Finished t # rest))))"

definition run :: "nat \<Rightarrow> registry \<Rightarrow> (string \<Rightarrow> bool) \<Rightarrow> string \<Rightarrow> run_event list option" where
  "run n reg fails name =
     (case sequence n reg [name] [] of
        None \<Rightarrow> None
      | Some order \<Rightarrow> execute n reg fails order)"

section \<open>Notions used in the statements\<close>

text \<open>\<open>avoids r c\<close>: no character class of \<open>r\<close> contains the code unit \<open>c\<close>.\<close>

fun avoids :: "re \<Rightarrow> nat \<Rightarrow> bool" where
  "avoids Eps c = True"
| "avoids (Cls rs) c = (\<not> in_cls rs c)"
| "avoids (Seq a b) c = (avoids a c \<and> avoids b c)"
| "avoids (Opt a) c = avoids a c"
| "avoids (Star a) c = avoids a c"

text \<open>
  The lines of a text whose lines end with LF or with CR LF: what
  \<open>split(/\r?\n/)\<close> is shown to compute. A CR that no LF follows stays in its line.
\<close>

fun lines_of :: "jsstr \<Rightarrow> jsstr list" where
  "lines_of [] = [[]]"
| "lines_of (c # cs) =
     (if c = 0x0A then [] # lines_of cs
      else if c = 0x0D \<and> cs \<noteq> [] \<and> hd cs = 0x0A then [] # lines_of (tl cs)
      else (case lines_of cs of [] \<Rightarrow> [[c]] | l # ls \<Rightarrow> (c # l) # ls))"

definition chomp :: "jsstr \<Rightarrow> jsstr" where
  "chomp l = (if l \<noteq> [] \<and> last l = 0x0D then butlast l else l)"

text \<open>A text without escape characters and without line breaks.\<close>

definition plain :: "jsstr \<Rightarrow> bool" where
  "plain s = (0x1B \<notin> set s \<and> 0x9B \<notin> set s \<and> 0x0A \<notin> set s \<and> 0x0D \<notin> set s)"

text \<open>
  Control sequences that start with ESC and an opening bracket: parameters separated by
  semicolons, the first of one to four digits, the others of at most four, then a final
  character out of the last class of \<open>rx\<close> that is not a digit. The colour sequences
  end with \<open>m\<close>.
\<close>

definition csi_final :: "nat \<Rightarrow> bool" where
  "csi_final c =
     in_cls [chr_range CHR ''A'' CHR ''O'', chr1 CHR ''R'', chr1 CHR ''Z'', chr1 CHR ''c'',
             chr_range CHR ''f'' CHR ''n'', chr1 CHR ''q'', chr1 CHR ''r'', chr1 CHR ''y'',
             chr1 CHR ''='', chr1 CHR ''>'', chr1 CHR ''<''] c"

fun params_text :: "jsstr list \<Rightarrow> jsstr" where
  "params_text [] = []"
| "params_text (p # qs) = p @ concat (map ((#) (of_char CHR '';'')) qs)"

definition params_ok :: "jsstr list \<Rightarrow> bool" where
  "params_ok ps =
     (case ps of
        [] \<Rightarrow> True
      | p # qs \<Rightarrow>
          p \<noteq> [] \<and> length p \<le> 4 \<and> list_all is_digit p \<and>
          list_all (\<lambda>q. length q \<le> 4 \<and> list_all is_digit q) qs)"

definition csi :: "jsstr list \<Rightarrow> nat \<Rightarrow> jsstr" where
  "csi ps fin = [0x1B, of_char CHR ''[''] @ params_text ps @ [fin]"


definition is_newline :: "jsstr \<Rightarrow> bool" where
  "is_newline nl = (nl = [0x0A] \<or> nl = [0x0D, 0x0A])"

text \<open>
  The lines of a text under any newline convention, following the words of the
  specification: a line ends with LF, with CR LF or with CR alone.
\<close>

fun any_newline_lines :: "jsstr \<Rightarrow> jsstr list" where
  "any_newline_lines [] = [[]]"
| "any_newline_lines (c # cs) =
     (if c = 0x0A then [] # any_newline_lines cs
      else if c = 0x0D \<and> cs \<noteq> [] \<and> hd cs = 0x0A then [] # any_newline_lines (tl cs)
      else if c = 0x0D then [] # any_newline_lines cs
      else (case any_newline_lines cs of [] \<Rightarrow> [[c]] | l # ls \<Rightarrow> (c # l) # ls))"

text \<open>
  The process of \<open>test:e2e\<close> after the listener of \<open>error\<close> has run before any
  \<open>end\<close> event: only the first message has been logged.
\<close>

definition e2e_failed :: e2e_process where
  "e2e_failed =
     \<lparr>status = Exited 1,
      trace = [ConsoleLog ([0x0A] @ js ''Starting end-to-end tests...'' @ [0x0A])],
      error_listener = False, end_listener = True, timer = False, request = False,
      finish_listener = False\<rparr>"

text \<open>A coverage summary as the test run writes it, and an environment that holds it.\<close>

definition sample_report :: jsstr where
  "sample_report =
     [0x0A] @ js ''======== Coverage summary ========'' @ [0x0D, 0x0A] @
     js ''Statements   : 92.5% ( 370/400 )'' @ [0x0A] @ js ''Branches     : 80% ( 8/10 )''"

definition sample_env :: environment where
  "sample_env = \<lparr>travis = False, coverage_txt = Some sample_report\<rparr>"

text \<open>
  The equations of the functions defined by \<open>function\<close> rewrite their own right-hand
  sides; they are applied where needed only.
\<close>

declare replace_all.simps [simp del] split_go.simps [simp del] bt.simps(5) [simp del]
declare lg_up.simps [simp del] lg_down.simps [simp del]

section \<open>Strings: properties of matching, replacing and splitting\<close>

lemma bt_suffix: "t \<in> set (bt r s) \<Longrightarrow> suffix t s"
proof (induction r s arbitrary: t rule: bt.induct)
  case (1 s)
  then show ?case by simp
next
  case (2 rs s)
  then show ?case by (auto split: list.splits if_splits simp: suffix_Cons)
next
  case (3 a b s)
  then show ?case by (auto intro: suffix_order.trans)
next
  case (4 a s)
  then show ?case by auto
next
  case (5 a s)
  from "5.prems" consider "t = s"
    | u where "u \<in> set (bt a s)" "length u < length s" "t \<in> set (bt (Star a) u)"
    by (subst (asm) bt.simps(5)) auto
  then show ?case
  proof cases
    case 1
    then show ?thesis by simp
  next
    case 2
    then have "suffix u s" "suffix t u" using "5.IH" by auto
    then show ?thesis by (rule_tac suffix_order.trans)
  qed
qed

lemma bt_length: "t \<in> set (bt r s) \<Longrightarrow> length t \<le> length s"
  by (auto dest: bt_suffix simp: suffix_length_le)

lemma bt_local:
  "avoids r c \<Longrightarrow> bt r (x @ c # y) = map (\<lambda>t. t @ c # y) (bt r x)"
proof (induction r x rule: bt.induct)
  case (1 s)
  then show ?case by simp
next
  case (2 rs s)
  then show ?case by (cases s) auto
next
  case (3 a b s)
  then show ?case by (simp add: map_concat comp_def cong: map_cong)
next
  case (4 a s)
  then show ?case by simp
next
  case (5 a s)
  have f: "filter (\<lambda>t. length t < length (s @ c # y)) (map (\<lambda>t. t @ c # y) (bt a s))
         = map (\<lambda>t. t @ c # y) (filter (\<lambda>t. length t < length s) (bt a s))"
    by (simp add: filter_map comp_def)
  define F where "F = filter (\<lambda>t. length t < length s) (bt a s)"
  have k: "bt (Star a) (u @ c # y) = map (\<lambda>t. t @ c # y) (bt (Star a) u)" if "u \<in> set F" for u
    using that "5.IH"(2)[of u] "5.prems" by (simp add: F_def)
  have "map (\<lambda>u. bt (Star a) (u @ c # y)) F = map (\<lambda>u. map (\<lambda>t. t @ c # y) (bt (Star a) u)) F"
    by (rule map_cong[OF refl]) (rule k)
  then have g: "concat (map (bt (Star a)) (map (\<lambda>t. t @ c # y) F))
      = map (\<lambda>t. t @ c # y) (concat (map (bt (Star a)) F))"
    by (simp only: map_map comp_def map_concat)
  have h: "bt a (s @ c # y) = map (\<lambda>t. t @ c # y) (bt a s)"
    using "5.IH"(1) "5.prems" by simp
  show ?case
    unfolding bt.simps(5)[of a "s @ c # y"] bt.simps(5)[of a s]
    by (simp only: h f g[unfolded F_def] map_append list.map)
qed

lemma replace_all_Nil:
  "replace_all r new [] = (case bt r [] of [] \<Rightarrow> [] | t # _ \<Rightarrow> new)"
  by (subst replace_all.simps) (simp split: list.splits)

lemma replace_all_local:
  "avoids r c \<Longrightarrow>
   replace_all r new (x @ c # y) = replace_all r new x @ c # replace_all r new y"
proof (induction x rule: length_induct)
  case (1 x)
  note loc = bt_local[OF "1.prems", of x y]
  show ?case
  proof (cases "bt r x")
    case Nil
    show ?thesis
    proof (cases x)
      case Nil
      with \<open>bt r x = []\<close> loc show ?thesis
        by (subst replace_all.simps) (simp add: replace_all_Nil)
    next
      case (Cons d ds)
      with \<open>bt r x = []\<close> loc "1.IH" "1.prems" show ?thesis
        by (subst replace_all.simps, subst (2) replace_all.simps) simp
    qed
  next
    case (Cons t ts)
    then have le: "length t \<le> length x" using bt_length[of t r x] by simp
    show ?thesis
    proof (cases "length t < length x")
      case True
      with Cons loc "1.IH" "1.prems" show ?thesis
        by (subst replace_all.simps, subst (2) replace_all.simps) simp
    next
      case False
      show ?thesis
      proof (cases x)
        case Nil
        with Cons loc False le show ?thesis
          by (subst replace_all.simps) (simp add: replace_all_Nil)
      next
        case (Cons d ds)
        with \<open>bt r x = t # ts\<close> loc False le "1.IH" "1.prems" show ?thesis
          by (subst replace_all.simps, subst (2) replace_all.simps) simp
      qed
    qed
  qed
qed

lemma replace_all_set: "set (replace_all r [] s) \<subseteq> set s"
proof (induction s rule: length_induct)
  case (1 s)
  then have ih: "set (replace_all r [] ys) \<subseteq> set ys" if "length ys < length s" for ys
    using that by blast
  have tl: "set (case s of [] \<Rightarrow> [] | c # cs \<Rightarrow> c # replace_all r [] cs) \<subseteq> set s"
  proof (cases s)
    case Nil
    then show ?thesis by simp
  next
    case (Cons c cs)
    with ih[of cs] show ?thesis by auto
  qed
  show ?case
  proof (cases "bt r s")
    case Nil
    with tl show ?thesis
      by (subst replace_all.simps) simp
  next
    case (Cons t ts)
    then have "suffix t s" using bt_suffix[of t r s] by simp
    then have ts: "set t \<subseteq> set s" by (rule set_mono_suffix)
    show ?thesis
    proof (cases "length t < length s")
      case True
      with Cons ih[of t] ts show ?thesis
        by (subst replace_all.simps) auto
    next
      case False
      with Cons tl show ?thesis
        by (subst replace_all.simps) simp
    qed
  qed
qed

lemma rep_upto_numeral [simp]:
  "rep_upto (numeral k) r = Opt (Seq r (rep_upto (pred_numeral k) r))"
  by (simp add: numeral_eq_Suc)

lemma rep_numeral [simp]:
  "rep (numeral k) hi r = Seq r (rep (pred_numeral k) (hi - 1) r)"
  by (simp add: numeral_eq_Suc)

lemma rep_one [simp]: "rep 1 hi r = Seq r (rep_upto (hi - 1) r)"
  using rep.simps(2)[of 0 hi r] by simp

lemma bt_rx_plain:
  assumes "c \<noteq> 0x1B" and "c \<noteq> 0x9B"
  shows "bt rx (c # cs) = []"
proof -
  have "\<not> in_cls [(0x1B, 0x1B), (0x9B, 0x9B)] c"
    using assms by (auto simp: in_cls_def)
  then show ?thesis by (simp add: rx_def)
qed

lemma bt_rx_Nil: "bt rx [] = []"
  by (simp add: rx_def)

lemma replace_all_rx_plain:
  "0x1B \<notin> set s \<Longrightarrow> 0x9B \<notin> set s \<Longrightarrow> replace_all rx new s = s"
proof (induction s)
  case Nil
  then show ?case by (simp add: replace_all_Nil bt_rx_Nil)
next
  case (Cons c cs)
  then have "bt rx (c # cs) = []" by (intro bt_rx_plain) auto
  with Cons show ?case by (subst replace_all.simps) simp
qed

lemma avoids_rx_LF: "avoids rx 0x0A"
  by (simp add: rx_def in_cls_def digit_def chr1_def chr_range_def)

lemma avoids_rx_CR: "avoids rx 0x0D"
  by (simp add: rx_def in_cls_def digit_def chr1_def chr_range_def)

lemma bt_newline_re:
  "bt newline_re s =
     (case s of [] \<Rightarrow> []
      | c # cs \<Rightarrow> if c = 0x0A then [cs]
                else if c = 0x0D \<and> cs \<noteq> [] \<and> hd cs = 0x0A then [tl cs] else [])"
  by (auto simp: newline_re_def in_cls_def split: list.splits)

lemma lines_of_not_Nil: "lines_of s \<noteq> []"
  by (induction s rule: lines_of.induct) (auto split: list.splits)

lemma split_go_newline:
  "\<not> (acc \<noteq> [] \<and> hd acc = 0x0D \<and> s \<noteq> [] \<and> hd s = 0x0A) \<Longrightarrow>
   split_go newline_re acc s = (rev acc @ hd (lines_of s)) # tl (lines_of s)"
proof (induction s arbitrary: acc rule: lines_of.induct)
  case 1
  then show ?case by (subst split_go.simps) simp
next
  case (2 c cs)
  show ?case
  proof (cases "c = 0x0A")
    case True
    with "2.IH"(1)[of "[]"] lines_of_not_Nil[of cs] show ?thesis
      by (subst split_go.simps) (simp add: bt_newline_re)
  next
    case nlf: False
    show ?thesis
    proof (cases "c = 0x0D \<and> cs \<noteq> [] \<and> hd cs = 0x0A")
      case True
      moreover have "length cs - Suc 0 < Suc (length cs)" by simp
      ultimately show ?thesis
        using nlf "2.IH"(2)[of "[]"] lines_of_not_Nil[of "tl cs"]
        by (subst split_go.simps) (simp add: bt_newline_re)
    next
      case False
      with nlf "2.IH"(3)[of "c # acc"] lines_of_not_Nil[of cs] show ?thesis
        by (subst split_go.simps) (auto simp: bt_newline_re split: list.splits)
    qed
  qed
qed

lemma split_re_newline: "split_re newline_re s = lines_of s"
proof (cases s)
  case Nil
  then show ?thesis by (simp add: split_re_def bt_newline_re)
next
  case (Cons c cs)
  then show ?thesis
    using split_go_newline[of "[]" s] lines_of_not_Nil[of s]
    by (simp add: split_re_def)
qed

lemma lines_of_LF:
  "0x0A \<notin> set a \<Longrightarrow> lines_of (a @ 0x0A # rest) = chomp a # lines_of rest"
proof (induction a rule: lines_of.induct)
  case 1
  then show ?case by (simp add: chomp_def)
next
  case (2 c cs)
  then show ?case
    by (cases cs) (auto simp: chomp_def)
qed

lemma lines_of_plain:
  "0x0A \<notin> set a \<Longrightarrow> lines_of a = [a]"
  by (induction a rule: lines_of.induct) (auto simp: neq_Nil_conv)

lemma split_chr_head:
  "nth_opt (split_chr d s) 0 = Some (takeWhile (\<lambda>c. c \<noteq> d) s)"
  by (induction s) (auto simp: nth_opt_def split: list.splits)

lemma replace_all_rx_prefix:
  "0x1B \<notin> set p \<Longrightarrow> 0x9B \<notin> set p \<Longrightarrow>
   replace_all rx new (p @ t) = p @ replace_all rx new t"
proof (induction p)
  case Nil
  then show ?case by simp
next
  case (Cons c cs)
  then have "bt rx (c # cs @ t) = []" by (intro bt_rx_plain) auto
  with Cons show ?case by (subst replace_all.simps) simp
qed

lemma replace_all_rx_newline:
  assumes "is_newline nl"
  shows "replace_all rx new (a @ nl @ b) = replace_all rx new a @ nl @ replace_all rx new b"
proof -
  have e: "replace_all rx new [] = []"
    by (simp add: replace_all_Nil bt_rx_Nil)
  from assms consider "nl = [0x0A]" | "nl = [0x0D, 0x0A]"
    by (auto simp: is_newline_def)
  then show ?thesis
  proof cases
    case 1
    then show ?thesis
      using replace_all_local[OF avoids_rx_LF, of new a b] by simp
  next
    case 2
    then show ?thesis
      using replace_all_local[OF avoids_rx_CR, of new a "0x0A # b"]
        replace_all_local[OF avoids_rx_LF, of new "[]" b] e
      by simp
  qed
qed

lemma lines_of_newline:
  assumes "0x0A \<notin> set a" and "is_newline nl"
  shows "tl (lines_of (a @ nl @ rest)) = lines_of rest"
proof -
  from assms(2) consider "nl = [0x0A]" | "nl = [0x0D, 0x0A]"
    by (auto simp: is_newline_def)
  then show ?thesis
  proof cases
    case 1
    then show ?thesis using lines_of_LF[OF assms(1), of rest] by simp
  next
    case 2
    then show ?thesis using lines_of_LF[of "a @ [0x0D]" rest] assms(1) by simp
  qed
qed

lemma lines_of_prefix:
  "0x0A \<notin> set p \<Longrightarrow> 0x0D \<notin> set p \<Longrightarrow>
   lines_of (p @ t) = (p @ hd (lines_of t)) # tl (lines_of t)"
  using lines_of_not_Nil[of t]
  by (induction p) (auto simp: neq_Nil_conv)

lemma split_chr_not_Nil: "split_chr d s \<noteq> []"
  by (induction s) (auto split: list.splits)

lemma split_chr_prefix:
  "d \<notin> set p \<Longrightarrow>
   split_chr d (p @ t) = (p @ hd (split_chr d t)) # tl (split_chr d t)"
  using split_chr_not_Nil[of d t]
  by (induction p) (auto simp: neq_Nil_conv)

lemma third_line:
  assumes "0x0A \<notin> set l0" and "0x0A \<notin> set l1"
    and "is_newline nl0" and "is_newline nl1"
  shows "nth_opt (lines_of (replace_all rx [] (l0 @ nl0 @ l1 @ nl1 @ rest))) 2
       = Some (hd (lines_of (replace_all rx [] rest)))"
proof -
  let ?s = "replace_all rx []"
  have a0: "0x0A \<notin> set (?s l0)" and a1: "0x0A \<notin> set (?s l1)"
    using assms(1,2) replace_all_set[of rx l0] replace_all_set[of rx l1] by auto
  have "?s (l0 @ nl0 @ l1 @ nl1 @ rest) = ?s l0 @ nl0 @ ?s l1 @ nl1 @ ?s rest"
    using replace_all_rx_newline[OF assms(3), of "[]" l0 "l1 @ nl1 @ rest"]
      replace_all_rx_newline[OF assms(4), of "[]" l1 rest]
    by simp
  moreover have "tl (tl (lines_of (?s l0 @ nl0 @ ?s l1 @ nl1 @ ?s rest))) = lines_of (?s rest)"
    using lines_of_newline[OF a0 assms(3)] lines_of_newline[OF a1 assms(4)] by simp
  ultimately have "tl (tl (lines_of (?s (l0 @ nl0 @ l1 @ nl1 @ rest)))) = lines_of (?s rest)"
    by simp
  then show ?thesis
    using lines_of_not_Nil[of "?s rest"]
    by (cases "lines_of (?s (l0 @ nl0 @ l1 @ nl1 @ rest))"; cases "tl (lines_of (?s (l0 @ nl0 @ l1 @ nl1 @ rest)))")
       (auto simp: nth_opt_def neq_Nil_conv)
qed

lemma extract_coverage_lines:
  "extract_coverage (Some text) =
     (case nth_opt (lines_of (replace_all rx [] text)) 2 of
        None \<Rightarrow> Inl TypeError
      | Some line \<Rightarrow>
         (case nth_opt (split_chr (of_char CHR '':'') line) 1 of
            None \<Rightarrow> Inl TypeError
          | Some seg \<Rightarrow> Inr (trim (takeWhile (\<lambda>c. c \<noteq> of_char CHR ''('') seg))))"
  by (simp add: extract_coverage_def split_re_newline split_chr_head split: option.splits)

subsection \<open>What the expression \<open>rx\<close> matches\<close>

text \<open>
  The greedy quantifiers take every digit of a parameter and every parameter of a control
  sequence, so that the first match the matcher finds is the whole sequence. A sequence
  that ends with a character outside the last class, such as the ones that save and
  restore the cursor position, is not matched at all, and the digits after an opening
  bracket are matched although no sequence ends there.
\<close>

lemma bt_digit:
  "bt digit s = (case s of [] \<Rightarrow> [] | c # cs \<Rightarrow> if is_digit c then [cs] else [])"
  by (simp add: digit_def is_digit_def in_cls_def chr_range_def split: list.splits)

lemma bt_digits:
  "list_all is_digit ds \<Longrightarrow> length ds \<le> n \<Longrightarrow> r = [] \<or> \<not> is_digit (hd r) \<Longrightarrow>
   \<exists>ts. bt (rep_upto n digit) (ds @ r) = r # ts"
proof (induction n arbitrary: ds)
  case 0
  then show ?case by simp
next
  case (Suc n)
  show ?case
  proof (cases ds)
    case Nil
    with Suc.prems(3) have "bt digit (ds @ r) = []"
      by (cases r) (auto simp: bt_digit)
    with Nil show ?thesis by simp
  next
    case (Cons d ds')
    with Suc.prems have "list_all is_digit ds'" "length ds' \<le> n" "is_digit d" by simp_all
    with Suc.IH[OF this(1,2) Suc.prems(3)] obtain ts
      where "bt (rep_upto n digit) (ds' @ r) = r # ts" by blast
    with Cons \<open>is_digit d\<close> show ?thesis by (simp add: bt_digit)
  qed
qed

lemma semicolon_not_digit: "\<not> is_digit (of_char CHR '';'')"
  by (simp add: is_digit_def)

lemma bt_groups:
  assumes dig: "\<And>q X. list_all is_digit q \<Longrightarrow> length q \<le> 4 \<Longrightarrow> X = [] \<or> \<not> is_digit (hd X) \<Longrightarrow>
      \<exists>ts. bt D (q @ X) = X # ts"
    and "list_all (\<lambda>q. length q \<le> 4 \<and> list_all is_digit q) qs"
    and "r \<noteq> []" and "hd r \<noteq> of_char CHR '';''" and "\<not> is_digit (hd r)"
  shows "\<exists>ts. bt (Star (Seq (Cls [chr1 CHR '';'']) D))
              (concat (map ((#) (of_char CHR '';'')) qs) @ r) = r # ts"
  using assms(2)
proof (induction qs)
  case Nil
  from assms(3,4) have "bt (Cls [chr1 CHR '';'']) r = []"
    by (cases r) (auto simp: in_cls_def chr1_def)
  then show ?case by (subst bt.simps(5)) simp
next
  case (Cons q qs)
  define g where "g = Seq (Cls [chr1 CHR '';'']) D"
  define X where "X = concat (map ((#) (of_char CHR '';'')) qs) @ r"
  define s where "s = of_char CHR '';'' # q @ X"
  from Cons obtain ts2 where ih: "bt (Star g) X = r # ts2"
    by (auto simp: X_def g_def)
  have hx: "X = [] \<or> \<not> is_digit (hd X)"
    using assms(5) semicolon_not_digit by (cases qs) (auto simp: X_def)
  from Cons.prems have q: "list_all is_digit q" "length q \<le> 4" by simp_all
  from dig[OF q hx] obtain ts1 where d: "bt D (q @ X) = X # ts1"
    by blast
  have g: "bt g s = X # ts1"
    using d by (simp add: in_cls_def chr1_def g_def s_def)
  have "length X < length s" by (simp add: s_def)
  then have f: "filter (\<lambda>t. length t < length s) (X # ts1)
      = X # filter (\<lambda>t. length t < length s) ts1"
    by simp
  have "bt (Star g) s
      = concat (map (bt (Star g)) (filter (\<lambda>t. length t < length s) (bt g s))) @ [s]"
    by (rule bt.simps(5))
  then have "\<exists>ts. bt (Star g) s = r # ts"
    by (simp only: g f list.map concat.simps ih) simp
  then show ?case by (simp add: X_def g_def s_def)
qed

lemma csi_final_facts:
  assumes "csi_final c"
  shows "\<not> is_digit c" and "c \<noteq> of_char CHR '';''"
    and "\<not> in_cls [chr1 CHR ''['', chr1 CHR ''('', chr1 CHR '')'', chr1 CHR ''#'',
                     chr1 CHR '';'', chr1 CHR ''?''] c"
    and "in_cls [chr_range CHR ''0'' CHR ''9'', chr_range CHR ''A'' CHR ''O'', chr1 CHR ''R'',
               chr1 CHR ''Z'', chr1 CHR ''c'', chr_range CHR ''f'' CHR ''n'', chr1 CHR ''q'',
               chr1 CHR ''r'', chr1 CHR ''y'', chr1 CHR ''='', chr1 CHR ''>'',
               chr1 CHR ''<''] c"
  using assms
  by (auto simp: csi_final_def in_cls_def is_digit_def chr1_def chr_range_def)

lemma bt_first_param:
  assumes "p \<noteq> []" and "length p \<le> 4" and "list_all is_digit p"
    and "Y = [] \<or> \<not> is_digit (hd Y)"
  shows "\<exists>ts. bt (rep 1 4 digit) (p @ Y) = Y # ts"
proof -
  from assms(1) obtain d p' where p: "p = d # p'" by (cases p) auto
  with assms(2,3) have "list_all is_digit p'" "length p' \<le> 3" "is_digit d" by simp_all
  from bt_digits[OF this(1,2) assms(4)] obtain ts
    where "bt (rep_upto 3 digit) (p' @ Y) = Y # ts" by blast
  moreover have "rep 1 4 digit = Seq digit (rep_upto 3 digit)"
    using rep.simps(2)[of 0 4 digit] by simp
  ultimately show ?thesis
    using \<open>is_digit d\<close> by (simp only: p bt.simps(3) bt_digit) simp
qed

lemma concat_head: "f x = y # ys \<Longrightarrow> \<exists>zs. concat (map f (x # xs)) = y # zs"
  by simp

lemma bt_rx_csi:
  assumes "params_ok ps" and "csi_final fin"
  shows "\<exists>ts. bt rx (csi ps fin @ rest) = rest # ts"
proof -
  define C2 where "C2 = Cls [chr1 CHR ''['', chr1 CHR ''('', chr1 CHR '')'', chr1 CHR ''#'',
                     chr1 CHR '';'', chr1 CHR ''?'']"
  define g where "g = Seq (Cls [chr1 CHR '';'']) (rep 0 4 digit)"
  define G where "G = Seq (rep 1 4 digit) (Star g)"
  define CF where "CF = Cls [chr_range CHR ''0'' CHR ''9'', chr_range CHR ''A'' CHR ''O'',
               chr1 CHR ''R'', chr1 CHR ''Z'', chr1 CHR ''c'', chr_range CHR ''f'' CHR ''n'',
               chr1 CHR ''q'', chr1 CHR ''r'', chr1 CHR ''y'', chr1 CHR ''='', chr1 CHR ''>'',
               chr1 CHR ''<'']"
  define T where "T = Seq (Opt G) CF"
  have rx: "rx = Seq (Cls [(0x1B, 0x1B), (0x9B, 0x9B)]) (Seq (Star C2) T)"
    unfolding rx_def T_def C2_def G_def g_def CF_def by (rule refl)
  define S3 where "S3 = fin # rest"
  define S2 where "S2 = params_text ps @ S3"
  define S1 where "S1 = of_char CHR ''['' # S2"
  note fin = csi_final_facts[OF assms(2)]
  have c: "csi ps fin @ rest = 0x1B # S1"
    by (simp add: csi_def S1_def S2_def S3_def)
  \<comment> \<open>the parameters and the final byte\<close>
  have cf: "bt CF S3 = [rest]"
    using fin(4) by (simp add: CF_def S3_def)
  have og: "\<exists>ts. bt (Opt G) S2 = S3 # ts"
  proof (cases ps)
    case Nil
    have "bt digit S3 = []" using fin(1) by (simp add: bt_digit S3_def)
    moreover have "rep 1 4 digit = Seq digit (rep_upto 3 digit)"
      using rep.simps(2)[of 0 4 digit] by simp
    ultimately have "bt G S3 = []"
      by (simp only: G_def bt.simps(3)) simp
    with Nil show ?thesis by (simp add: S2_def)
  next
    case (Cons p qs)
    define Y where "Y = concat (map ((#) (of_char CHR '';'')) qs) @ S3"
    from Cons assms(1) have p: "p \<noteq> []" "length p \<le> 4" "list_all is_digit p"
      and qs: "list_all (\<lambda>q. length q \<le> 4 \<and> list_all is_digit q) qs"
      by (simp_all add: params_ok_def)
    have hy: "Y = [] \<or> \<not> is_digit (hd Y)"
      using fin(1) semicolon_not_digit by (cases qs) (auto simp: Y_def S3_def)
    from bt_first_param[OF p hy] obtain ts1 where a: "bt (rep 1 4 digit) (p @ Y) = Y # ts1"
      by blast
    have dig: "\<exists>ts. bt (rep_upto 4 digit) (q @ X) = X # ts"
      if "list_all is_digit q" "length q \<le> 4" "X = [] \<or> \<not> is_digit (hd X)" for q X
      using that by (rule bt_digits)
    have g4: "g = Seq (Cls [chr1 CHR '';'']) (rep_upto 4 digit)"
      by (simp only: g_def rep.simps(1))
    have "S3 \<noteq> []" "hd S3 \<noteq> of_char CHR '';''" "\<not> is_digit (hd S3)"
      using fin(1,2) by (simp_all add: S3_def)
    from bt_groups[OF dig qs this] have "\<exists>ts. bt (Star g) Y = S3 # ts"
      unfolding g4 Y_def by blast
    then obtain ts2 where b: "bt (Star g) Y = S3 # ts2" by blast
    have "bt G (p @ Y) = concat (map (bt (Star g)) (Y # ts1))"
      by (simp only: G_def bt.simps(3) a)
    with b have "\<exists>ts. bt G (p @ Y) = S3 # ts" by simp
    moreover have "S2 = p @ Y" by (simp add: S2_def Cons Y_def)
    ultimately show ?thesis by auto
  qed
  then obtain ts3 where "bt (Opt G) S2 = S3 # ts3" by blast
  then have "bt T S2 = concat (map (bt CF) (S3 # ts3))"
    by (simp only: T_def bt.simps(3))
  with cf obtain ts4 where t: "bt T S2 = rest # ts4" by simp
  \<comment> \<open>the bracket\<close>
  have "S2 \<noteq> [] \<and> \<not> in_cls [chr1 CHR ''['', chr1 CHR ''('', chr1 CHR '')'', chr1 CHR ''#'',
                     chr1 CHR '';'', chr1 CHR ''?''] (hd S2)"
  proof (cases ps)
    case Nil
    with fin(3) show ?thesis by (simp add: S2_def S3_def)
  next
    case (Cons p qs)
    with assms(1) obtain d p' where "p = d # p'" "is_digit d"
      by (cases p) (auto simp: params_ok_def)
    with Cons show ?thesis
      by (auto simp: S2_def in_cls_def is_digit_def chr1_def)
  qed
  then have n2: "bt C2 S2 = []" by (cases S2) (simp_all add: C2_def)
  have s2: "bt (Star C2) S2 = [S2]"
    by (subst bt.simps(5)) (simp add: n2)
  have b1: "bt C2 S1 = [S2]"
    by (simp add: C2_def S1_def in_cls_def chr1_def)
  have "length S2 < length S1" by (simp add: S1_def)
  then have s1: "bt (Star C2) S1 = [S2, S1]"
    by (subst bt.simps(5)) (simp add: b1 s2)
  have "bt (Seq (Star C2) T) S1 = concat (map (bt T) [S2, S1])"
    by (simp only: bt.simps(3) s1)
  with t obtain ts5 where u: "bt (Seq (Star C2) T) S1 = rest # ts5" by simp
  have "bt rx (0x1B # S1) = concat (map (bt (Seq (Star C2) T)) [S1])"
    unfolding rx by (simp only: bt.simps(3)) (simp add: in_cls_def)
  with u show ?thesis by (simp add: c)
qed

lemma replace_all_csi:
  assumes "params_ok ps" and "csi_final fin"
  shows "replace_all rx new (csi ps fin @ rest) = new @ replace_all rx new rest"
proof -
  from bt_rx_csi[OF assms] obtain ts where "bt rx (csi ps fin @ rest) = rest # ts"
    by blast
  moreover have "length rest < length (csi ps fin @ rest)" by (simp add: csi_def)
  ultimately show ?thesis by (subst replace_all.simps) simp
qed

lemma replace_all_unmatched:
  "bt rx (c # cs) = [] \<Longrightarrow> replace_all rx new (c # cs) = c # replace_all rx new cs"
  by (subst replace_all.simps) simp

lemma bt_rx_save_restore:
  "bt rx (0x1B # of_char CHR ''['' # of_char CHR ''s'' # r) = []"
  "bt rx (0x1B # of_char CHR ''['' # of_char CHR ''u'' # r) = []"
  by (simp_all add: rx_def in_cls_def chr1_def chr_range_def bt_digit is_digit_def bt.simps(5))

lemma replace_all_save_restore:
  "replace_all rx new (0x1B # of_char CHR ''['' # of_char CHR ''s'' # r)
     = 0x1B # replace_all rx new (of_char CHR ''['' # of_char CHR ''s'' # r)"
  "replace_all rx new (0x1B # of_char CHR ''['' # of_char CHR ''u'' # r)
     = 0x1B # replace_all rx new (of_char CHR ''['' # of_char CHR ''u'' # r)"
  by (rule replace_all_unmatched, rule bt_rx_save_restore)+

lemma replace_all_rx_overmatch:
  "replace_all rx [] ([0x1B] @ js ''[92.5%'') = js ''.5%''"
  by (simp add: replace_all.simps rx_def in_cls_def chr1_def chr_range_def bt_digit is_digit_def
      bt.simps(5) js_def)

text \<open>
  The extraction on a report whose third line has the expected shape: a label, a colon,
  the percentage, an opening parenthesis, possibly after a prefix that is stripped.
\<close>

lemma takeWhile_until:
  "d \<notin> set p \<Longrightarrow> takeWhile (\<lambda>c. c \<noteq> d) (p @ d # r) = p"
  by (induction p) auto

lemma extract_coverage_styled_line:
  assumes "0x0A \<notin> set l0" and "0x0A \<notin> set l1"
    and "is_newline nl0" and "is_newline nl1"
    and "\<And>x. replace_all rx [] (pre @ x) = replace_all rx [] x"
    and "plain label" and "of_char CHR '':'' \<notin> set label"
    and "plain pct" and "of_char CHR '':'' \<notin> set pct" and "of_char CHR ''('' \<notin> set pct"
  shows "extract_coverage
      (Some (l0 @ nl0 @ l1 @ nl1 @ pre @ label @ [of_char CHR '':''] @ pct @
             [of_char CHR ''(''] @ tail))
    = Inr (trim pct)"
proof -
  let ?s = "replace_all rx []"
  let ?colon = "of_char CHR '':'' :: nat" and ?lparen = "of_char CHR ''('' :: nat"
  define L where "L = label @ [?colon] @ pct @ [?lparen]"
  have pl: "0x1B \<notin> set L" "0x9B \<notin> set L" "0x0A \<notin> set L" "0x0D \<notin> set L"
    using assms(6,8) by (simp_all add: L_def plain_def)
  have s: "?s (pre @ L @ tail) = L @ ?s tail"
    using assms(5)[of "L @ tail"] replace_all_rx_prefix[OF pl(1,2), of "[]" tail] by simp
  have l: "hd (lines_of (L @ ?s tail)) = L @ hd (lines_of (?s tail))"
    using lines_of_prefix[OF pl(3,4), of "?s tail"] by simp
  have n: "nth_opt (lines_of (?s (l0 @ nl0 @ l1 @ nl1 @ pre @ L @ tail))) 2
      = Some (L @ hd (lines_of (?s tail)))"
    using third_line[OF assms(1-4), of "pre @ L @ tail"] by (simp only: s l)
  have c: "nth_opt (split_chr ?colon (L @ r)) 1
      = Some (pct @ ?lparen # hd (split_chr ?colon r))" for r
  proof -
    have "split_chr ?colon (label @ ?colon # (pct @ [?lparen]) @ r)
       = label # split_chr ?colon ((pct @ [?lparen]) @ r)"
      using split_chr_prefix[OF assms(7), of "?colon # (pct @ [?lparen]) @ r"] by simp
    also have "split_chr ?colon ((pct @ [?lparen]) @ r)
       = ((pct @ [?lparen]) @ hd (split_chr ?colon r)) # tl (split_chr ?colon r)"
      by (rule split_chr_prefix) (use assms(9) in simp)
    finally show ?thesis by (simp add: nth_opt_def L_def del: of_char_Char)
  qed
  have t: "takeWhile (\<lambda>c. c \<noteq> ?lparen) (pct @ ?lparen # r) = pct" for r
    using assms(10) by (rule takeWhile_until)
  have "extract_coverage (Some (l0 @ nl0 @ l1 @ nl1 @ pre @ L @ tail)) = Inr (trim pct)"
    unfolding extract_coverage_lines
    by (simp only: n c t option.case)
  then show ?thesis by (simp add: L_def)
qed

lemma extract_coverage_styled_summary:
  assumes "0x0A \<notin> set l0" and "0x0A \<notin> set l1"
    and "is_newline nl0" and "is_newline nl1"
    and "\<And>x. replace_all rx [] (pre @ x) = replace_all rx [] x"
  shows "extract_coverage
      (Some (l0 @ nl0 @ l1 @ nl1 @ pre @ js ''Statements   : 92.5% ( 370/400 )'' @ tail))
    = Inr (js ''92.5%'')"
proof -
  have "extract_coverage
      (Some (l0 @ nl0 @ l1 @ nl1 @ pre @ js ''Statements   '' @ [of_char CHR '':''] @
             js '' 92.5% '' @ [of_char CHR ''(''] @ js '' 370/400 )'' @ tail))
    = Inr (trim (js '' 92.5% ''))"
    by (rule extract_coverage_styled_line[OF assms]) (simp_all add: plain_def js_def)
  moreover have "trim (js '' 92.5% '') = js ''92.5%''"
    by (simp add: trim_def js_def is_ws_def in_cls_def)
  moreover have "js ''Statements   : 92.5% ( 370/400 )''
      = js ''Statements   '' @ [of_char CHR '':''] @ js '' 92.5% '' @ [of_char CHR ''(''] @
        js '' 370/400 )''"
    by (simp add: js_def)
  ultimately show ?thesis by simp
qed

lemma extract_coverage_coloured_summary:
  assumes "0x0A \<notin> set l0" and "0x0A \<notin> set l1"
    and "is_newline nl0" and "is_newline nl1"
    and "params_ok ps" and "csi_final fin"
  shows "extract_coverage
      (Some (l0 @ nl0 @ l1 @ nl1 @ csi ps fin @ js ''Statements   : 92.5% ( 370/400 )'' @ tail))
    = Inr (js ''92.5%'')"
  by (rule extract_coverage_styled_summary[OF assms(1-4)])
     (simp add: replace_all_csi[OF assms(5,6)])

lemma extract_coverage_summary_line:
  assumes "0x0A \<notin> set l0" and "0x0A \<notin> set l1"
    and "is_newline nl0" and "is_newline nl1"
  shows "extract_coverage
      (Some (l0 @ nl0 @ l1 @ nl1 @ js ''Statements   : 92.5% ( 370/400 )'' @ tail))
    = Inr (js ''92.5%'')"
  using extract_coverage_styled_summary[OF assms, of "[]" tail] by simp

lemma escapes_left_in_place:
  "extract_coverage
     (Some ([0x0A] @ js ''======== Coverage summary ========'' @ [0x0A] @
            js ''Statements   : '' @ [0x1B] @ js ''[s92.5%'' @ [0x1B] @ js ''[u ( 370/400 )''))
   = Inr ([0x1B] @ js ''[s92.5%'' @ [0x1B] @ js ''[u'')"
proof -
  let ?p = "[0x0A] @ js ''======== Coverage summary ========'' @ [0x0A] @ js ''Statements   : ''"
  let ?r = "?p @ [0x1B] @ js ''[s92.5%'' @ [0x1B] @ js ''[u ( 370/400 )''"
  have a: "replace_all rx [] (js ''[u ( 370/400 )'') = js ''[u ( 370/400 )''"
    by (rule replace_all_rx_plain) (simp_all add: js_def)
  have b: "replace_all rx [] (0x1B # js ''[u ( 370/400 )'') = 0x1B # js ''[u ( 370/400 )''"
    using replace_all_save_restore(2)[of "[]" "js '' ( 370/400 )''"] a
    by (simp add: js_def)
  have c: "replace_all rx [] (js ''[s92.5%'' @ 0x1B # js ''[u ( 370/400 )'')
      = js ''[s92.5%'' @ 0x1B # js ''[u ( 370/400 )''"
    by (subst replace_all_rx_prefix) (simp_all add: b, simp_all add: js_def)
  have d: "replace_all rx [] (0x1B # js ''[s92.5%'' @ 0x1B # js ''[u ( 370/400 )'')
      = 0x1B # js ''[s92.5%'' @ 0x1B # js ''[u ( 370/400 )''"
    using replace_all_save_restore(1)[of "[]" "js ''92.5%'' @ 0x1B # js ''[u ( 370/400 )''"] c
    by (simp add: js_def)
  have "replace_all rx [] (?p @ 0x1B # js ''[s92.5%'' @ 0x1B # js ''[u ( 370/400 )'')
      = ?p @ 0x1B # js ''[s92.5%'' @ 0x1B # js ''[u ( 370/400 )''"
    by (subst replace_all_rx_prefix) (simp_all add: d, simp_all add: js_def)
  then have e: "replace_all rx [] ?r = ?r" by simp
  have "lines_of ?r = [[], js ''======== Coverage summary ========'',
      js ''Statements   : '' @ [0x1B] @ js ''[s92.5%'' @ [0x1B] @ js ''[u ( 370/400 )'']"
    by (simp add: js_def)
  with e show ?thesis
    by (simp add: extract_coverage_lines nth_opt_def)
       (simp add: js_def trim_def is_ws_def in_cls_def)
qed

section \<open>Claims about the coverage badge generator\<close>

text \<open>
  Claim C1, as stated, lets the extractor strip terminal escape sequences and split the
  report into lines by any newline convention. Neither holds for every report. The
  expression \<open>/\r?\n/\<close> ends a line at LF or CR LF only: a report whose lines end with
  CR alone has the summary as its third line, and the extractor reads \<open>undefined\<close> at
  index 2 and throws. The expression \<open>rx\<close> is a fixed pattern: the sequences that save
  and restore the cursor position, ESC \<open>[s\<close> and ESC \<open>[u\<close>, are not among its
  matches and stay in the extracted percentage.
\<close>

theorem coverage_extraction_counterexample:
  "nth_opt (any_newline_lines
      (js ''a'' @ [0x0D] @ js ''b'' @ [0x0D] @ js ''Statements   : 92.5% ( 370/400 )'')) 2
     = Some (js ''Statements   : 92.5% ( 370/400 )'')
   \<and> extract_coverage
      (Some (js ''a'' @ [0x0D] @ js ''b'' @ [0x0D] @ js ''Statements   : 92.5% ( 370/400 )''))
     = Inl TypeError
   \<and> extract_coverage
      (Some ([0x0A] @ js ''======== Coverage summary ========'' @ [0x0A] @
             js ''Statements   : '' @ [0x1B] @ js ''[s92.5%'' @ [0x1B] @ js ''[u ( 370/400 )''))
     = Inr ([0x1B] @ js ''[s92.5%'' @ [0x1B] @ js ''[u'')"
proof -
  let ?t = "js ''a'' @ [0x0D] @ js ''b'' @ [0x0D] @ js ''Statements   : 92.5% ( 370/400 )''"
  have "replace_all rx [] ?t = ?t"
    by (rule replace_all_rx_plain) (simp_all add: js_def)
  moreover have "lines_of ?t = [?t]"
    by (rule lines_of_plain) (simp add: js_def)
  ultimately have a: "extract_coverage (Some ?t) = Inl TypeError"
    by (simp add: extract_coverage_lines nth_opt_def)
  have b: "nth_opt (any_newline_lines ?t) 2 = Some (js ''Statements   : 92.5% ( 370/400 )'')"
    by (simp add: js_def nth_opt_def)
  from b a escapes_left_in_place show ?thesis by blast
qed

text \<open>
  Claim C1, amended: for every coverage report text, the extractor removes the matches
  of the fixed pattern \<open>rx\<close>, splits the text into lines at LF or CR LF, selects the
  line at index 2, splits it on \<open>:\<close> and takes the second segment, takes what precedes
  the first \<open>(\<close> of that segment, and trims it; a missing line or segment is a
  \<open>TypeError\<close>. Removing the matches of \<open>rx\<close> strips every control sequence made of
  ESC, an opening bracket, parameters of at most four digits and a final character of
  the pattern, such as the colour sequences, and copies text without ESC and CSI
  characters. In particular, for every report whose first two lines end with LF or CR LF
  and whose third line is \<open>Statements   : 92.5% ( 370/400 )\<close>, also when such a control
  sequence precedes it and whatever follows it, the extractor yields the percentage
  string \<open>92.5%\<close>.
\<close>

theorem coverage_extraction:
  "extract_coverage (Some report) =
     (case nth_opt (lines_of (replace_all rx [] report)) 2 of
        None \<Rightarrow> Inl TypeError
      | Some line \<Rightarrow>
         (case nth_opt (split_chr (of_char CHR '':'') line) 1 of
            None \<Rightarrow> Inl TypeError
          | Some seg \<Rightarrow> Inr (trim (takeWhile (\<lambda>c. c \<noteq> of_char CHR ''('') seg))))
   \<and> (params_ok ps \<and> csi_final fin \<longrightarrow>
        replace_all rx [] (csi ps fin @ rest) = replace_all rx [] rest)
   \<and> (0x1B \<notin> set p \<and> 0x9B \<notin> set p \<longrightarrow>
        replace_all rx [] (p @ rest) = p @ replace_all rx [] rest)
   \<and> (0x0A \<notin> set l0 \<and> 0x0A \<notin> set l1 \<and> is_newline nl0 \<and> is_newline nl1 \<longrightarrow>
      extract_coverage
        (Some (l0 @ nl0 @ l1 @ nl1 @ js ''Statements   : 92.5% ( 370/400 )'' @ tail))
      = Inr (js ''92.5%'')
      \<and> (params_ok ps \<and> csi_final fin \<longrightarrow>
         extract_coverage
           (Some (l0 @ nl0 @ l1 @ nl1 @ csi ps fin @
                  js ''Statements   : 92.5% ( 370/400 )'' @ tail))
         = Inr (js ''92.5%'')))"
  using extract_coverage_lines[of report]
    replace_all_csi[of ps fin "[]" rest]
    replace_all_rx_prefix[of p "[]" rest]
    extract_coverage_summary_line[of l0 l1 nl0 nl1 tail]
    extract_coverage_coloured_summary[of l0 l1 nl0 nl1 ps fin tail]
  by simp

theorem coverage_extraction_witness:
  "params_ok [js ''32'', js ''1''] \<and> csi_final (of_char CHR ''m'')
   \<and> 0x1B \<notin> set (js ''Statements'') \<and> 0x9B \<notin> set (js ''Statements'')
   \<and> 0x0A \<notin> set [] \<and> 0x0A \<notin> set (js ''======== Coverage summary ========'')
   \<and> is_newline [0x0A] \<and> is_newline [0x0D, 0x0A]
   \<and> replace_all rx [] (csi [js ''32'', js ''1''] (of_char CHR ''m'') @ js ''Statements'')
      = js ''Statements''
   \<and> extract_coverage
        (Some ([] @ [0x0A] @ js ''======== Coverage summary ========'' @ [0x0D, 0x0A] @
               js ''Statements   : 92.5% ( 370/400 )'' @ [0x0A] @ js ''Branches     : 80% ( 8/10 )''))
      = Inr (js ''92.5%'')
   \<and> extract_coverage
        (Some ([] @ [0x0A] @ js ''======== Coverage summary ========'' @ [0x0D, 0x0A] @
               csi [js ''32'', js ''1''] (of_char CHR ''m'') @
               js ''Statements   : 92.5% ( 370/400 )'' @ [0x0A] @ js ''Branches     : 80% ( 8/10 )''))
      = Inr (js ''92.5%'')"
proof -
  have h: "params_ok [js ''32'', js ''1'']" "csi_final (of_char CHR ''m'')"
    "0x1B \<notin> set (js ''Statements'')" "0x9B \<notin> set (js ''Statements'')"
    "0x0A \<notin> set ([]::jsstr)" "0x0A \<notin> set (js ''======== Coverage summary ========'')"
    "is_newline [0x0A]" "is_newline [0x0D, 0x0A]"
    by (simp_all add: params_ok_def csi_final_def is_digit_def in_cls_def chr1_def chr_range_def
        is_newline_def js_def)
  have e: "replace_all rx [] (js ''Statements'') = js ''Statements''"
    by (rule replace_all_rx_plain[OF h(3,4)])
  note t = coverage_extraction[where report = "[]" and ps = "[js ''32'', js ''1'']"
      and fin = "of_char CHR ''m''" and rest = "js ''Statements''" and p = "js ''Statements''"
      and ?l0.0 = "[]" and ?l1.0 = "js ''======== Coverage summary ========''"
      and ?nl0.0 = "[0x0A]" and ?nl1.0 = "[0x0D, 0x0A]"
      and tail = "[0x0A] @ js ''Branches     : 80% ( 8/10 )''"]
  from t h e show ?thesis by (simp del: of_char_Char)
qed

lemma sample_report_coverage: "extract_coverage (Some sample_report) = Inr (js ''92.5%'')"
  unfolding sample_report_def
  using extract_coverage_summary_line[of "[]" "js ''======== Coverage summary ========''"
      "[0x0A]" "[0x0D, 0x0A]" "[0x0A] @ js ''Branches     : 80% ( 8/10 )''"]
  by (simp add: is_newline_def js_def)

subsection \<open>The badge address\<close>

text \<open>Replacing every match of a class of one character maps over the string.\<close>

lemma replace_all_chr:
  "replace_all (Cls [(d, d)]) new s = concat (map (\<lambda>c. if c = d then new else [c]) s)"
proof (induction s)
  case Nil
  then show ?case by (simp add: replace_all_Nil)
next
  case (Cons c cs)
  then show ?case
    by (subst replace_all.simps) (auto simp: in_cls_def)
qed

lemma badge_url_map:
  "badge_url coverage color =
     js ''https://img.shields.io/badge/coverage-'' @
     concat (map (\<lambda>c. if c = of_char CHR ''%'' then js ''%25'' else [c]) coverage) @
     js ''-'' @ color @ js ''.svg''"
  by (simp add: badge_url_def chr1_def replace_all_chr)

text \<open>
  Claim C4: for every percentage string and colour, the badge address is the fixed
  template \<open>https://img.shields.io/badge/coverage-<pct>-<color>.svg\<close> in which every
  \<open>%\<close> of the percentage string is replaced by \<open>%25\<close> and every other character is
  kept; for the percentage \<open>92.5%\<close> the address contains \<open>92.5%25\<close>.
\<close>

theorem badge_url_escapes_percent:
  "badge_url coverage color =
     js ''https://img.shields.io/badge/coverage-'' @
     concat (map (\<lambda>c. if c = of_char CHR ''%'' then js ''%25'' else [c]) coverage) @
     js ''-'' @ color @ js ''.svg''
   \<and> badge_url (js ''92.5%'') color =
     js ''https://img.shields.io/badge/coverage-92.5%25-'' @ color @ js ''.svg''
   \<and> sublist (js ''92.5%25'') (badge_url (js ''92.5%'') color)"
proof -
  have e: "badge_url (js ''92.5%'') color =
     js ''https://img.shields.io/badge/coverage-'' @ js ''92.5%25'' @ js ''-'' @ color @ js ''.svg''"
    by (simp add: badge_url_map) (simp add: js_def)
  then have "sublist (js ''92.5%25'') (badge_url (js ''92.5%'') color)"
    unfolding sublist_def by blast
  moreover have "badge_url (js ''92.5%'') color =
     js ''https://img.shields.io/badge/coverage-92.5%25-'' @ color @ js ''.svg''"
    unfolding e by (simp add: js_def)
  ultimately show ?thesis using badge_url_map by blast
qed

subsection \<open>Classification\<close>

lemma to_double_not_NaN: "to_double n d \<noteq> NaN"
  by (simp add: to_double_def Let_def)

lemma literal_value_not_NaN: "literal_value l \<noteq> NaN"
  by (cases l) (simp_all add: to_double_not_NaN)

lemma js_neg_NaN: "js_neg x = NaN \<longleftrightarrow> x = NaN"
  by (cases x) simp_all

lemma parseFloat_NaN: "parseFloat s = NaN \<longleftrightarrow> numeric_prefix s = None"
  by (auto simp: parseFloat_def js_neg_NaN literal_value_not_NaN split: option.splits)

lemma js_lt_90:
  "js_lt x (Fin 90) = (case x of NaN \<Rightarrow> False | PInf \<Rightarrow> False | NInf \<Rightarrow> True | Fin v \<Rightarrow> v < 90)"
  by (cases x) simp_all

lemma numeric_prefix_letter:
  "numeric_prefix (js ''Unknown%'') = None" "numeric_prefix (js ''n/a'') = None"
  by (simp_all add: numeric_prefix_def unsigned_literal_def js_def is_ws_def in_cls_def
      is_digit_def)

lemmas parseFloat_defs =
  parseFloat_def numeric_prefix_def unsigned_literal_def exponent_part_def signed_integer_def
  js_def is_ws_def in_cls_def is_digit_def digits_val_def to_double_def floor_log2_def
  round_half_even_def Let_def lg_up.simps lg_down.simps

lemma parseFloat_92_5: "parseFloat (js ''92.5%'') = Fin (185 / 2)"
  by (simp add: parseFloat_defs)

lemma parseFloat_85_0: "parseFloat (js ''85.0%'') = Fin 85"
  by (simp add: parseFloat_defs)

text \<open>
  Rounding and the bound 90. The binary exponent that \<open>floor_log2\<close> finds encloses
  the rational; rounding to even moves it by at most one unit; and the double of
  \<open>n / d\<close> is below 90 exactly when \<open>n / d\<close> is below \<open>90 - 2\<^sup>-\<^sup>4\<^sup>7\<close>, the middle between
  90 and the double before it: a decimal in between, such as
  \<open>89.99999999999999999\<close>, is read as 90.
\<close>

lemma lg_up_bounds:
  "0 < d \<Longrightarrow> d \<le> n \<Longrightarrow> d * 2 ^ lg_up n d \<le> n \<and> n < d * 2 ^ Suc (lg_up n d)"
proof (induction n d rule: lg_up.induct)
  case (1 n d)
  show ?case
  proof (cases "2 * d \<le> n")
    case True
    with 1 have "(2 * d) * 2 ^ lg_up n (2 * d) \<le> n \<and> n < (2 * d) * 2 ^ Suc (lg_up n (2 * d))"
      by simp
    moreover from True 1 have "lg_up n d = Suc (lg_up n (2 * d))"
      by (subst lg_up.simps) simp
    ultimately show ?thesis by (simp add: mult.assoc)
  next
    case False
    with 1 have "lg_up n d = 0" by (subst lg_up.simps) simp
    with False 1 show ?thesis by simp
  qed
qed

lemma lg_down_bounds:
  "0 < n \<Longrightarrow> n < d \<Longrightarrow>
   0 < lg_down n d \<and> d \<le> n * 2 ^ lg_down n d \<and> n * 2 ^ lg_down n d < 2 * d"
proof (induction n d rule: lg_down.induct)
  case (1 n d)
  from 1 have s: "lg_down n d = Suc (lg_down (2 * n) d)"
    by (subst lg_down.simps) simp
  show ?case
  proof (cases "2 * n < d")
    case True
    with 1 have "d \<le> (2 * n) * 2 ^ lg_down (2 * n) d \<and> (2 * n) * 2 ^ lg_down (2 * n) d < 2 * d"
      by simp
    then show ?thesis by (simp add: s mult.assoc mult.left_commute)
  next
    case False
    then have "lg_down (2 * n) d = 0" by (subst lg_down.simps) simp
    with False 1 show ?thesis by (simp add: s)
  qed
qed

lemma round_half_even_bounds:
  "n div d \<le> round_half_even n d \<and> round_half_even n d \<le> n div d + 1"
  by (simp add: round_half_even_def Let_def)

lemma round_half_even_less:
  assumes "0 < d" and "even M"
  shows "round_half_even n d < M \<longleftrightarrow> 2 * n + d < 2 * M * d"
proof -
  define q r where "q = n div d" and "r = n mod d"
  have n: "n = q * d + r" and r: "r < d"
    using assms(1) by (simp_all add: q_def r_def)
  have lt: "2 * n + d < 2 * M * d" if "q + 1 < M"
  proof -
    from that have "(q + 2) * d \<le> M * d" by (intro mult_le_mono1) simp
    then have "q * d + 2 * d \<le> M * d" by (simp only: add_mult_distrib)
    moreover have "2 * M * d = 2 * (M * d)" by simp
    moreover have "2 * n = 2 * (q * d) + 2 * r" by (simp add: n)
    ultimately show ?thesis using r by linarith
  qed
  have ge: "\<not> 2 * n + d < 2 * M * d" if "M \<le> q"
  proof -
    from that have "M * d \<le> q * d" by (intro mult_le_mono1)
    moreover have "2 * M * d = 2 * (M * d)" by simp
    moreover have "2 * n = 2 * (q * d) + 2 * r" by (simp add: n)
    ultimately show ?thesis by linarith
  qed
  consider "q + 1 < M" | "q + 1 = M" | "M \<le> q" by linarith
  then show ?thesis
  proof cases
    case 1
    with lt round_half_even_bounds[of n d] show ?thesis
      by (simp add: q_def)
  next
    case 3
    with ge round_half_even_bounds[of n d] show ?thesis
      by (simp add: q_def)
  next
    case 2
    then have oq: "odd q" using assms(2) by auto
    have "2 * M * d = 2 * (q * d) + 2 * d"
      unfolding 2[symmetric] by (simp add: algebra_simps)
    moreover have "2 * n = 2 * (q * d) + 2 * r" by (simp add: n)
    ultimately have e: "2 * n + d < 2 * M * d \<longleftrightarrow> 2 * r < d"
      by linarith
    have "round_half_even n d = (if 2 * r < d then q else q + 1)"
      using oq by (simp add: round_half_even_def Let_def q_def r_def)
    with 2 e show ?thesis by simp
  qed
qed

lemma exponent_upper:
  assumes "0 < (d::nat)" and "d * 2 ^ k \<le> n" and "n < 2 ^ j * d"
  shows "k < j"
proof -
  have "d * 2 ^ k < 2 ^ j * d" using assms(2,3) by (rule le_less_trans)
  then have "d * 2 ^ k < d * 2 ^ j" by (simp only: mult.commute[of "2 ^ j" d])
  then have "(2::nat) ^ k < 2 ^ j" using assms(1) by simp
  then show ?thesis by simp
qed

lemma exponent_lower:
  assumes "0 < (d::nat)" and "2 ^ j * d \<le> n" and "n < d * 2 ^ Suc k"
  shows "j \<le> k"
proof -
  have "2 ^ j * d < d * 2 ^ Suc k" using assms(2,3) by (rule le_less_trans)
  then have "d * 2 ^ j < d * 2 ^ Suc k" by (simp only: mult.commute[of "2 ^ j" d])
  then have "(2::nat) ^ j < 2 ^ Suc k" using assms(1) by (simp only: mult_less_cancel1)
  then have "j < Suc k" by (rule power_less_imp_less_exp[rotated]) simp
  then show ?thesis by simp
qed

lemma js_lt_overflow:
  "js_lt (if 2 ^ 1024 \<le> v then PInf else Fin v) (Fin 90) \<longleftrightarrow> v < 90"
proof -
  have "(90::rat) < 2 ^ 7" by simp
  also have "(2::rat) ^ 7 \<le> 2 ^ 1024" by (rule power_increasing) simp_all
  finally show ?thesis by auto
qed

lemma scaled_less:
  "(of_nat m / 2 ^ j :: rat) < 90 \<longleftrightarrow> m < 90 * 2 ^ j"
proof -
  have "(of_nat m / 2 ^ j :: rat) < 90 \<longleftrightarrow> (of_nat m :: rat) < 90 * 2 ^ j"
    by (simp add: divide_less_eq)
  also have "\<dots> \<longleftrightarrow> (of_nat m :: rat) < of_nat (90 * 2 ^ j)"
    by simp
  also have "\<dots> \<longleftrightarrow> m < 90 * 2 ^ j"
    by (rule of_nat_less_iff)
  finally show ?thesis .
qed

lemma to_double_low:
  assumes "0 < n" and "max (floor_log2 n d) (- 1022) = e" and "e \<le> 52"
  shows "js_lt (to_double n d) (Fin 90)
     \<longleftrightarrow> round_half_even (n * 2 ^ nat (52 - e)) d < 90 * 2 ^ nat (52 - e)"
proof -
  let ?m = "round_half_even (n * 2 ^ nat (52 - e)) d"
  have v: "(if 52 \<le> e then of_nat (?m * 2 ^ nat (e - 52)) else of_nat ?m / 2 ^ nat (52 - e))
      = (of_nat ?m / 2 ^ nat (52 - e) :: rat)"
    using assms(3) by (cases "e = 52") auto
  have "to_double n d =
      (if 2 ^ 1024 \<le> (of_nat ?m / 2 ^ nat (52 - e) :: rat) then PInf
       else Fin (of_nat ?m / 2 ^ nat (52 - e)))"
    using assms v by (simp add: to_double_def Let_def)
  then show ?thesis by (simp only: js_lt_overflow scaled_less)
qed

lemma to_double_lt_90:
  assumes "0 < d"
  shows "js_lt (to_double n d) (Fin 90) \<longleftrightarrow> n * 2 ^ 47 + d < 90 * 2 ^ 47 * d"
proof (cases "n = 0")
  case True
  with assms show ?thesis by (simp add: to_double_def)
next
  case False
  then have n: "0 < n" by simp
  define e where "e = max (floor_log2 n d) (- 1022)"
  define j where "j = nat (52 - e)"
  have small: ?thesis if "e \<le> 52" "n < 64 * d"
  proof -
    have "n * 2 ^ j < (64 * 2 ^ j) * d" using that(2) by simp
    then have "(n * 2 ^ j) div d < 64 * 2 ^ j"
      using assms by (simp add: div_less_iff_less_mult)
    then have "round_half_even (n * 2 ^ j) d \<le> 64 * 2 ^ j"
      using round_half_even_bounds[of "n * 2 ^ j" d] by linarith
    also have "(64::nat) * 2 ^ j < 90 * 2 ^ j" by simp
    finally have "js_lt (to_double n d) (Fin 90)"
      using to_double_low[OF n e_def[symmetric] that(1)] by (simp add: j_def)
    moreover have "n * 2 ^ 47 + d < 90 * 2 ^ 47 * d" using that(2) assms by simp
    ultimately show ?thesis by simp
  qed
  have large: ?thesis if "e \<le> 52" "128 * d \<le> n"
  proof -
    have "(128 * 2 ^ j) * d \<le> n * 2 ^ j" using that(2) by simp
    then have "128 * 2 ^ j \<le> (n * 2 ^ j) div d"
      using assms by (simp add: less_eq_div_iff_mult_less_eq)
    then have "128 * 2 ^ j \<le> round_half_even (n * 2 ^ j) d"
      using round_half_even_bounds[of "n * 2 ^ j" d] by linarith
    moreover have "(90::nat) * 2 ^ j \<le> 128 * 2 ^ j" by simp
    ultimately have "\<not> js_lt (to_double n d) (Fin 90)"
      using to_double_low[OF n e_def[symmetric] that(1)] by (simp add: j_def)
    moreover have "\<not> n * 2 ^ 47 + d < 90 * 2 ^ 47 * d" using that(2) by simp
    ultimately show ?thesis by simp
  qed
  show ?thesis
  proof (cases "d \<le> n")
    case False
    then have "floor_log2 n d \<le> 0" by (simp add: floor_log2_def)
    then have "e \<le> 52" by (simp add: e_def)
    moreover from False have "n < 64 * d" by simp
    ultimately show ?thesis by (rule small)
  next
    case True
    define k where "k = lg_up n d"
    have e: "e = int k" using True by (simp add: e_def floor_log2_def k_def)
    have b: "d * 2 ^ k \<le> n" "n < d * 2 ^ Suc k"
      using lg_up_bounds[OF assms True] by (simp_all add: k_def)
    consider "n < 64 * d" | "64 * d \<le> n" "n < 128 * d" | "128 * d \<le> n" "k \<le> 52"
      | "128 * d \<le> n" "52 < k"
      by linarith
    then show ?thesis
    proof cases
      case 1
      then have "n < 2 ^ 6 * d" by simp
      with assms b(1) have "k < 6" by (rule exponent_upper)
      then have "e \<le> 52" by (simp add: e)
      then show ?thesis using 1 by (rule small)
    next
      case 2
      from 2(2) have "n < 2 ^ 7 * d" by simp
      with assms b(1) have "k < 7" by (rule exponent_upper)
      moreover from 2(1) have "2 ^ 6 * d \<le> n" by simp
      with assms have "6 \<le> k" using b(2) by (rule exponent_lower)
      ultimately have k: "k = 6" by simp
      have "js_lt (to_double n d) (Fin 90)
          \<longleftrightarrow> round_half_even (n * 2 ^ 46) d < 90 * 2 ^ 46"
        using to_double_low[OF n e_def[symmetric], of ] by (simp add: e k)
      also have "\<dots> \<longleftrightarrow> 2 * (n * 2 ^ 46) + d < 2 * (90 * 2 ^ 46) * d"
        by (rule round_half_even_less[OF assms]) simp
      also have "\<dots> \<longleftrightarrow> n * 2 ^ 47 + d < 90 * 2 ^ 47 * d"
        by (simp add: mult.commute)
      finally show ?thesis .
    next
      case 3
      then have "e \<le> 52" by (simp add: e)
      then show ?thesis using 3(1) by (rule large)
    next
      case 4
      define i where "i = k - 52"
      have k: "k = 52 + i" using 4(2) by (simp add: i_def)
      let ?m = "round_half_even n (d * 2 ^ i)"
      have "2 ^ 52 * (d * 2 ^ i) \<le> n"
        using b(1) by (simp add: k power_add mult_ac)
      then have "2 ^ 52 \<le> n div (d * 2 ^ i)"
        using assms by (simp add: less_eq_div_iff_mult_less_eq)
      then have m: "2 ^ 52 \<le> ?m"
        using round_half_even_bounds[of n "d * 2 ^ i"] by linarith
      have "(90::nat) < 2 ^ 52" by simp
      also have "\<dots> \<le> ?m * 2 ^ i" using m
        by (metis mult.right_neutral mult_le_mono one_le_numeral one_le_power)
      finally have big: "\<not> (of_nat (?m * 2 ^ i) :: rat) < 90"
        by (metis of_nat_less_iff of_nat_numeral less_asym)
      have "to_double n d =
          (if 2 ^ 1024 \<le> (of_nat (?m * 2 ^ i) :: rat) then PInf else Fin (of_nat (?m * 2 ^ i)))"
        using n 4(2) e_def[symmetric] by (simp add: to_double_def Let_def e k)
      then have "js_lt (to_double n d) (Fin 90) \<longleftrightarrow> (of_nat (?m * 2 ^ i) :: rat) < 90"
        by (simp only: js_lt_overflow)
      with big have "\<not> js_lt (to_double n d) (Fin 90)"
        by blast
      moreover have "\<not> n * 2 ^ 47 + d < 90 * 2 ^ 47 * d" using 4(1) by simp
      ultimately show ?thesis by simp
    qed
  qed
qed

lemma to_double_nonneg:
  "to_double n d = PInf \<or> (\<exists>v. to_double n d = Fin v \<and> 0 \<le> v)"
  by (auto simp: to_double_def Let_def)

lemma js_lt_neg_to_double: "js_lt (js_neg (to_double n d)) (Fin 90)"
  using to_double_nonneg[of n d] by auto

lemma literal_lt_90:
  "js_lt (literal_value (Decimal m k)) (Fin 90)
     \<longleftrightarrow> (of_nat m * 10 powi k :: rat) < 90 - 1 / 2 ^ 47"
proof (cases "0 \<le> k")
  case True
  have "js_lt (literal_value (Decimal m k)) (Fin 90)
      \<longleftrightarrow> m * 10 ^ nat k * 2 ^ 47 + 1 < 90 * 2 ^ 47 * 1"
    using True to_double_lt_90[of 1 "m * 10 ^ nat k"] by simp
  also have "\<dots> \<longleftrightarrow> (of_nat (m * 10 ^ nat k * 2 ^ 47 + 1) :: rat) < of_nat (90 * 2 ^ 47 * 1)"
    by (simp only: of_nat_less_iff)
  also have "\<dots> \<longleftrightarrow> (of_nat m * 10 ^ nat k :: rat) < 90 - 1 / 2 ^ 47"
    by (simp add: field_simps)
  also have "(10::rat) ^ nat k = 10 powi k"
    using True by (simp add: power_int_def)
  finally show ?thesis .
next
  case False
  define D :: nat where "D = 10 ^ nat (- k)"
  have D: "0 < D" by (simp add: D_def)
  have "js_lt (literal_value (Decimal m k)) (Fin 90) \<longleftrightarrow> m * 2 ^ 47 + D < 90 * 2 ^ 47 * D"
    using False to_double_lt_90[OF D, of m] by (simp add: D_def)
  also have "\<dots> \<longleftrightarrow> (of_nat (m * 2 ^ 47 + D) :: rat) < of_nat (90 * 2 ^ 47 * D)"
    by (simp only: of_nat_less_iff)
  also have "\<dots> \<longleftrightarrow> (of_nat m / of_nat D :: rat) < 90 - 1 / 2 ^ 47"
    using D by (simp add: field_simps)
  also have "(of_nat m / of_nat D :: rat) = of_nat m * 10 powi k"
    using False by (simp add: power_int_def D_def field_simps)
  finally show ?thesis .
qed

lemma color_of_decimal:
  "color_of s =
     (case numeric_prefix s of
        None \<Rightarrow> js ''green''
      | Some (negative, Infinity_lit) \<Rightarrow> if negative then js ''red'' else js ''green''
      | Some (negative, Decimal m k) \<Rightarrow>
          if negative \<or> (of_nat m * 10 powi k :: rat) < 90 - 1 / 2 ^ 47 then js ''red''
          else js ''green'')"
proof (cases "numeric_prefix s")
  case None
  then show ?thesis by (simp add: color_of_def parseFloat_def)
next
  case (Some a)
  obtain negative l where a: "a = (negative, l)" by (cases a)
  show ?thesis
  proof (cases l)
    case Infinity_lit
    with Some a show ?thesis by (simp add: color_of_def parseFloat_def)
  next
    case (Decimal m k)
    show ?thesis
    proof (cases negative)
      case True
      have "js_lt (js_neg (literal_value (Decimal m k))) (Fin 90)"
        by (simp add: js_lt_neg_to_double)
      with Some a Decimal True show ?thesis
        by (simp add: color_of_def parseFloat_def)
    next
      case False
      with Some a Decimal literal_lt_90[of m k] show ?thesis
        by (simp add: color_of_def parseFloat_def del: literal_value.simps)
    qed
  qed
qed

lemma numeric_prefix_nines:
  "numeric_prefix (js ''89.99999999999999999%'') = Some (False, Decimal 8999999999999999999 (- 17))"
  by (simp add: numeric_prefix_def unsigned_literal_def exponent_part_def js_def is_ws_def
      in_cls_def is_digit_def digits_val_def Let_def)

lemma color_of_nines: "color_of (js ''89.99999999999999999%'') = js ''green''"
  by (simp add: color_of_decimal numeric_prefix_nines power_int_def power_divide)

text \<open>
  Claim C2, as stated, makes the colour red whenever the percentage string does not
  parse to a value of at least 90. It is not so when the string has no numeric prefix:
  \<open>parseFloat\<close> gives NaN, the test \<open>NaN < 90\<close> is false, and the colour stays green.
\<close>

theorem color_of_nan_counterexample:
  "parseFloat (js ''n/a'') = NaN \<and> color_of (js ''n/a'') = js ''green''
   \<and> js ''green'' \<noteq> js ''red''"
proof -
  have "parseFloat (js ''n/a'') = NaN"
    by (simp add: parseFloat_NaN numeric_prefix_letter)
  then show ?thesis by (simp add: color_of_def) (simp add: js_def)
qed

text \<open>
  Claim C2, amended: for every extracted percentage string, the colour is red if the
  numeric prefix of the string parses to a floating-point value less than 90 (or to
  minus infinity), and green otherwise, that is for a value of at least 90 and for a
  string without numeric prefix; \<open>92.5%\<close> is green and \<open>85.0%\<close> is red.
\<close>

theorem color_of_cases:
  "color_of coverage =
     (case parseFloat coverage of
        NaN \<Rightarrow> js ''green''
      | PInf \<Rightarrow> js ''green''
      | NInf \<Rightarrow> js ''red''
      | Fin v \<Rightarrow> if 90 \<le> v then js ''green'' else js ''red'')
   \<and> color_of (js ''92.5%'') = js ''green''
   \<and> color_of (js ''85.0%'') = js ''red''"
proof -
  have "color_of coverage =
     (case parseFloat coverage of
        NaN \<Rightarrow> js ''green''
      | PInf \<Rightarrow> js ''green''
      | NInf \<Rightarrow> js ''red''
      | Fin v \<Rightarrow> if 90 \<le> v then js ''green'' else js ''red'')"
    by (simp add: color_of_def js_lt_90 not_less split: jsnum.splits)
  moreover have "color_of (js ''92.5%'') = js ''green''"
    by (simp add: color_of_def parseFloat_92_5)
  moreover have "color_of (js ''85.0%'') = js ''red''"
    by (simp add: color_of_def parseFloat_85_0)
  ultimately show ?thesis by blast
qed

text \<open>
  Claim C10: for every extracted percentage token whose leading characters do not parse
  as a number, so that \<open>parseFloat\<close> returns NaN, the colour is green.
\<close>

theorem nan_is_green:
  "(parseFloat coverage = NaN \<longleftrightarrow> numeric_prefix coverage = None)
   \<and> (parseFloat coverage = NaN \<longrightarrow> color_of coverage = js ''green'')"
proof -
  have "color_of coverage = js ''green''" if "parseFloat coverage = NaN"
    using that by (simp add: color_of_def)
  then show ?thesis using parseFloat_NaN by blast
qed

theorem nan_is_green_witness:
  "parseFloat (js ''Unknown%'') = NaN \<and> color_of (js ''Unknown%'') = js ''green''"
  using nan_is_green[of "js ''Unknown%''"] by (simp add: numeric_prefix_letter)

section \<open>Claims about the processes\<close>

lemma seq_Nil [simp]: "seq [] p = p"
  by (simp add: seq_def)

lemma seq_Cons [simp]: "seq (f # fs) p = seq fs (f p)"
  by (simp add: seq_def)

lemma fold_deliver_stopped:
  "status p \<noteq> Running \<Longrightarrow> fold (deliver env) evs p = p"
  by (induction evs) (simp_all add: deliver_def)

lemma task_e2e_start:
  "task_e2e e2e_start =
     \<lparr>status = Running,
      trace = [ConsoleLog ([0x0A] @ js ''Starting end-to-end tests...'' @ [0x0A])],
      error_listener = True, end_listener = True, timer = False, request = False,
      finish_listener = False\<rparr>"
  by (simp add: task_e2e_def e2e_start_def perform_def listen_def)

lemma deliver_before_end:
  assumes "End_event \<notin> set pre" and "p = task_e2e e2e_start \<or> p = e2e_failed"
  shows "fold (deliver env) pre p = task_e2e e2e_start \<or> fold (deliver env) pre p = e2e_failed"
  using assms
proof (induction pre arbitrary: p)
  case Nil
  then show ?case by simp
next
  case (Cons ev pre)
  have "deliver env ev p = task_e2e e2e_start \<or> deliver env ev p = e2e_failed"
    using Cons.prems
    by (cases ev) (auto simp: task_e2e_start e2e_failed_def deliver_def process_exit_def)
  with Cons show ?case by simp
qed

lemma e2e_error:
  assumes "End_event \<notin> set pre"
  shows "run_e2e env (pre @ Error_event # post) = e2e_failed"
proof -
  have "fold (deliver env) pre (task_e2e e2e_start) = task_e2e e2e_start
      \<or> fold (deliver env) pre (task_e2e e2e_start) = e2e_failed"
    using deliver_before_end[OF assms] by simp
  then have "deliver env Error_event (fold (deliver env) pre (task_e2e e2e_start)) = e2e_failed"
    by (auto simp: task_e2e_start e2e_failed_def deliver_def process_exit_def)
  then show ?thesis
    by (simp add: run_e2e_def fold_deliver_stopped e2e_failed_def)
qed

text \<open>
  Claim C5: on an error event of the end-to-end test run the process exits with code 1,
  and badge generation does not occur: when the error event comes before any end event,
  the trace holds the first message only, whatever events follow.
\<close>

theorem e2e_error_exits_one:
  "(status p = Running \<and> error_listener p \<longrightarrow>
      status (deliver env Error_event p) = Exited 1
      \<and> trace (deliver env Error_event p) = trace p)
   \<and> (End_event \<notin> set pre \<longrightarrow>
      status (run_e2e env (pre @ Error_event # post)) = Exited 1
      \<and> trace (run_e2e env (pre @ Error_event # post))
         = [ConsoleLog ([0x0A] @ js ''Starting end-to-end tests...'' @ [0x0A])])"
  by (simp add: e2e_error e2e_failed_def deliver_def process_exit_def)

theorem e2e_error_exits_one_witness:
  "status (task_e2e e2e_start) = Running \<and> error_listener (task_e2e e2e_start)
   \<and> End_event \<notin> set [Timeout]
   \<and> status (deliver sample_env Error_event (task_e2e e2e_start)) = Exited 1
   \<and> status (run_e2e sample_env
        ([Timeout] @ Error_event # [End_event, Response (IncomingMessage []), Finish]))
      = Exited 1
   \<and> trace (run_e2e sample_env
        ([Timeout] @ Error_event # [End_event, Response (IncomingMessage []), Finish]))
      = [ConsoleLog ([0x0A] @ js ''Starting end-to-end tests...'' @ [0x0A])]"
  using e2e_error_exits_one[of "task_e2e e2e_start" sample_env "[Timeout]"
      "[End_event, Response (IncomingMessage []), Finish]"]
  by (simp add: task_e2e_start)

lemma on_response_error:
  assumes "status p = Running"
  shows "on_response (ErrorObject msg) p =
     p\<lparr>trace := trace p @ [ConsoleError (ErrorObject msg)], status := Exited 0\<rparr>"
  using assms by (simp add: on_response_def perform_def process_exit_def listen_def)

lemma split_chr_absent: "d \<notin> set s \<Longrightarrow> split_chr d s = [s]"
  by (induction s) auto

lemma split_chr_present: "d \<in> set s \<Longrightarrow> 2 \<le> length (split_chr d s)"
  using split_chr_not_Nil[of d]
  by (induction s) (auto split: list.splits simp: Suc_le_eq)

lemma split_chr_second:
  "nth_opt (split_chr d s) (Suc 0) = (if d \<in> set s then Some (split_chr d s ! 1) else None)"
  using split_chr_present[of d s]
  by (auto simp: nth_opt_def split_chr_absent)

lemma extract_coverage_cases:
  "extract_coverage contents =
     (case contents of
        None \<Rightarrow> Inl ReadError
      | Some report \<Rightarrow>
          let ls = lines_of (replace_all rx [] report)
          in if length ls < 3 \<or> of_char CHR '':'' \<notin> set (ls ! 2) then Inl TypeError
             else Inr (trim (takeWhile (\<lambda>c. c \<noteq> of_char CHR ''('')
                              (split_chr (of_char CHR '':'') (ls ! 2) ! 1))))"
proof (cases contents)
  case None
  then show ?thesis by (simp add: extract_coverage_def)
next
  case (Some report)
  have "nth_opt (split_chr d l) 1 = None" if "d \<notin> set l" for d and l :: jsstr
    using that by (simp add: split_chr_second)
  moreover have "nth_opt (split_chr d l) 1 = Some (split_chr d l ! 1)" if "d \<in> set l"
    for d and l :: jsstr
    using that by (simp add: split_chr_second)
  ultimately show ?thesis
    unfolding Some option.case extract_coverage_lines Let_def
    by (cases "length (lines_of (replace_all rx [] report)) < 3";
        cases "of_char CHR '':'' \<in> set (lines_of (replace_all rx [] report) ! 2)")
       (simp_all add: nth_opt_def[of "lines_of (replace_all rx [] report)"] del: of_char_Char)
qed

lemma on_end_throws:
  assumes "extract_coverage (coverage_txt env) = Inl err" and "status p = Running"
  shows "status (on_end env p) = Uncaught err"
    and "trace (on_end env p) =
           trace p @ (if travis env then [SetTimeout 500] else []) @
           [ConsoleLog (js ''Generating badge...'')]"
  using assms by (simp_all add: on_end_def perform_def listen_def throw_def)

lemma on_end_requests:
  assumes "extract_coverage (coverage_txt env) = Inr coverage" and "status p = Running"
  shows "status (on_end env p) = Running"
    and "request (on_end env p)"
    and "trace (on_end env p) =
           trace p @ (if travis env then [SetTimeout 500] else []) @
           [ConsoleLog (js ''Generating badge...''),
            HttpGet (badge_url coverage (color_of coverage))]"
  using assms by (simp_all add: on_end_def perform_def listen_def)

lemma run_e2e_end:
  "run_e2e env [End_event] = on_end env ((task_e2e e2e_start)\<lparr>end_listener := False\<rparr>)"
  by (simp add: run_e2e_def deliver_def task_e2e_start)

lemma run_e2e_snoc:
  "run_e2e env (evs @ [ev]) = deliver env ev (run_e2e env evs)"
  by (simp add: run_e2e_def)

lemma two_lines_only:
  "extract_coverage (Some (js ''Statements   : 92.5% ( 370/400 )'' @ [0x0A] @ js ''Branches     : 80% ( 8/10 )''))
   = Inl TypeError"
proof -
  let ?r = "js ''Statements   : 92.5% ( 370/400 )'' @ [0x0A] @ js ''Branches     : 80% ( 8/10 )''"
  have "replace_all rx [] ?r = ?r"
    by (rule replace_all_rx_plain) (simp_all add: js_def)
  moreover have "length (lines_of ?r) = 2"
    by (simp add: js_def)
  ultimately show ?thesis
    by (simp add: extract_coverage_cases)
qed

text \<open>
  Claim C3: if the value delivered to the callback of \<open>http.get\<close> is an error
  object, the generator logs it with \<open>console.error\<close> and the process exits with
  code 0; nothing is written to the badge file.
\<close>

theorem fetch_error_exits_zero:
  "status p = Running \<Longrightarrow> request p \<Longrightarrow>
   status (deliver env (Response (ErrorObject msg)) p) = Exited 0
   \<and> trace (deliver env (Response (ErrorObject msg)) p)
      = trace p @ [ConsoleError (ErrorObject msg)]"
  by (simp add: deliver_def on_response_error)

theorem fetch_error_exits_zero_witness:
  "status (run_e2e sample_env [End_event]) = Running
   \<and> request (run_e2e sample_env [End_event])
   \<and> status (run_e2e sample_env [End_event, Response (ErrorObject (js ''ENOTFOUND''))])
      = Exited 0
   \<and> trace (run_e2e sample_env [End_event, Response (ErrorObject (js ''ENOTFOUND''))])
      = [ConsoleLog ([0x0A] @ js ''Starting end-to-end tests...'' @ [0x0A]),
         ConsoleLog (js ''Generating badge...''),
         HttpGet (badge_url (js ''92.5%'') (color_of (js ''92.5%''))),
         ConsoleError (ErrorObject (js ''ENOTFOUND''))]"
proof -
  have e: "extract_coverage (coverage_txt sample_env) = Inr (js ''92.5%'')"
    by (simp only: sample_env_def environment.select_convs sample_report_coverage)
  have r: "status ((task_e2e e2e_start)\<lparr>end_listener := False\<rparr>) = Running"
    by (simp add: task_e2e_start)
  note o = on_end_requests[OF e r, folded run_e2e_end]
  have t: "trace (run_e2e sample_env [End_event])
      = [ConsoleLog ([0x0A] @ js ''Starting end-to-end tests...'' @ [0x0A]),
         ConsoleLog (js ''Generating badge...''),
         HttpGet (badge_url (js ''92.5%'') (color_of (js ''92.5%'')))]"
    unfolding o(3) by (simp add: task_e2e_start sample_env_def)
  have s: "run_e2e sample_env [End_event, Response (ErrorObject (js ''ENOTFOUND''))]
      = deliver sample_env (Response (ErrorObject (js ''ENOTFOUND'')))
          (run_e2e sample_env [End_event])"
    using run_e2e_snoc[of sample_env "[End_event]"] by simp
  from fetch_error_exits_zero[OF o(1) o(2), of sample_env "js ''ENOTFOUND''"] o(1) o(2)
  show ?thesis unfolding s t by simp
qed

text \<open>
  Claim C8, as stated, counts a third line without \<open>(\<close> among the malformed reports
  that raise an error. It raises none: \<open>split('(')[0]\<close> of a segment without
  \<open>(\<close> is the whole segment, and the badge is requested.
\<close>

theorem no_parenthesis_counterexample:
  "of_char CHR ''('' \<notin> set (js ''Statements   : 92.5%'')
   \<and> extract_coverage
        (Some ([0x0A] @ js ''======== Coverage summary ========'' @ [0x0A] @
               js ''Statements   : 92.5%''))
      = Inr (js ''92.5%'')
   \<and> status (run_e2e
        \<lparr>travis = False,
         coverage_txt = Some ([0x0A] @ js ''======== Coverage summary ========'' @ [0x0A] @
                              js ''Statements   : 92.5%'')\<rparr>
        [End_event]) = Running"
proof -
  let ?r = "[0x0A] @ js ''======== Coverage summary ========'' @ [0x0A] @ js ''Statements   : 92.5%''"
  have "replace_all rx [] ?r = ?r"
    by (rule replace_all_rx_plain) (simp_all add: js_def)
  moreover have "lines_of ?r = [[], js ''======== Coverage summary ========'', js ''Statements   : 92.5%'']"
    by (simp add: js_def)
  ultimately have e: "extract_coverage (Some ?r) = Inr (js ''92.5%'')"
    by (simp add: extract_coverage_lines nth_opt_def)
       (simp add: js_def trim_def is_ws_def in_cls_def)
  have s: "status (run_e2e \<lparr>travis = False, coverage_txt = Some ?r\<rparr> [End_event]) = Running"
    unfolding run_e2e_end
    by (rule on_end_requests(1)[where coverage = "js ''92.5%''"])
       (simp only: environment.select_convs e, simp add: task_e2e_start)
  have n: "of_char CHR ''('' \<notin> set (js ''Statements   : 92.5%'')"
    by (simp add: js_def)
  from n e s show ?thesis by blast
qed

text \<open>
  Claim C8, amended: if the coverage report cannot be read, has fewer than three lines,
  or has a third line without \<open>:\<close>, the badge generator throws (the read error, or a
  \<open>TypeError\<close>), and in no other case; the error is not caught: the listener of
  \<open>end\<close> stops after the message \<open>Generating badge...\<close>, nothing is logged for the
  error and no badge is requested.
\<close>

theorem report_errors_uncaught:
  "extract_coverage contents =
     (case contents of
        None \<Rightarrow> Inl ReadError
      | Some report \<Rightarrow>
          let ls = lines_of (replace_all rx [] report)
          in if length ls < 3 \<or> of_char CHR '':'' \<notin> set (ls ! 2) then Inl TypeError
             else Inr (trim (takeWhile (\<lambda>c. c \<noteq> of_char CHR ''('')
                              (split_chr (of_char CHR '':'') (ls ! 2) ! 1))))
   \<and> (extract_coverage (coverage_txt env) = Inl err \<and> status p = Running \<and> end_listener p
        \<longrightarrow>
      status (deliver env End_event p) = Uncaught err
      \<and> trace (deliver env End_event p) =
          trace p @ (if travis env then [SetTimeout 500] else []) @
          [ConsoleLog (js ''Generating badge...'')])"
proof -
  have "status (deliver env End_event p) = Uncaught err
      \<and> trace (deliver env End_event p) =
          trace p @ (if travis env then [SetTimeout 500] else []) @
          [ConsoleLog (js ''Generating badge...'')]"
    if "extract_coverage (coverage_txt env) = Inl err" "status p = Running" "end_listener p"
    using that on_end_throws[of env err "p\<lparr>end_listener := False\<rparr>"]
    by (simp add: deliver_def)
  then show ?thesis using extract_coverage_cases[of contents] by blast
qed

theorem report_errors_uncaught_witness:
  "extract_coverage (coverage_txt
      \<lparr>travis = True, coverage_txt = Some (js ''Statements   : 92.5% ( 370/400 )'' @ [0x0A] @ js ''Branches     : 80% ( 8/10 )'')\<rparr>)
     = Inl TypeError
   \<and> status (task_e2e e2e_start) = Running \<and> end_listener (task_e2e e2e_start)
   \<and> status (deliver
        \<lparr>travis = True, coverage_txt = Some (js ''Statements   : 92.5% ( 370/400 )'' @ [0x0A] @ js ''Branches     : 80% ( 8/10 )'')\<rparr>
        End_event (task_e2e e2e_start)) = Uncaught TypeError
   \<and> trace (deliver
        \<lparr>travis = True, coverage_txt = Some (js ''Statements   : 92.5% ( 370/400 )'' @ [0x0A] @ js ''Branches     : 80% ( 8/10 )'')\<rparr>
        End_event (task_e2e e2e_start))
     = [ConsoleLog ([0x0A] @ js ''Starting end-to-end tests...'' @ [0x0A]), SetTimeout 500,
        ConsoleLog (js ''Generating badge...'')]"
  using report_errors_uncaught[of
      "Some (js ''Statements   : 92.5% ( 370/400 )'' @ [0x0A] @ js ''Branches     : 80% ( 8/10 )'')"
      "\<lparr>travis = True, coverage_txt = Some (js ''Statements   : 92.5% ( 370/400 )'' @ [0x0A] @ js ''Branches     : 80% ( 8/10 )'')\<rparr>"
      TypeError "task_e2e e2e_start"]
    two_lines_only
  by (simp add: task_e2e_start)

subsection \<open>The bundle stream\<close>







text \<open>Without the listener of lines 70 to 73 the error event of the bundle ends the process.\<close>

lemma bundle_error_unhandled:
  "status (emit uglify (Bundle_error err) (build_start\<lparr>piped := True\<rparr>))
   = Uncaught UnhandledError"
  by (simp add: emit_def build_start_def throw_def)



subsection \<open>The unit test runner\<close>

lemma karma_callback_handle:
  "status p = Running \<Longrightarrow>
   karma_callback (Bound Handle) exit_code p = p\<lparr>trace := trace p @ [ServerStop, TaskDone]\<rparr>"
  by (simp add: karma_callback_def perform_def)

lemma karma_callback_undefined:
  "status p = Running \<Longrightarrow>
   karma_callback (Bound Undefined) exit_code p = p\<lparr>trace := trace p @ [TaskDone]\<rparr>"
  by (simp add: karma_callback_def perform_def)

text \<open>
  In the two remaining cases the callback throws before it signals completion: the
  variable is read before \<open>start()\<close> has returned, or it holds an object without a
  method \<open>stop\<close>.
\<close>

lemma karma_callback_throws:
  assumes "status p = Running"
  shows "karma_callback Uninitialised exit_code p = p\<lparr>status := Uncaught ReferenceError\<rparr>"
    and "karma_callback (Bound Other_object) exit_code p = p\<lparr>status := Uncaught TypeError\<rparr>"
  using assms by (simp_all add: karma_callback_def perform_def throw_def)

text \<open>
  Claim C7: in the callback of the Karma server, a server handle held by \<open>server\<close> is
  stopped before the task signals its completion, and without a handle the task signals
  its completion at once; the exit code of the test run makes no difference.
\<close>

theorem server_stopped_before_done:
  "status p = Running \<Longrightarrow>
   karma_callback (Bound Handle) exit_code p = p\<lparr>trace := trace p @ [ServerStop, TaskDone]\<rparr>
   \<and> karma_callback (Bound Undefined) exit_code p = p\<lparr>trace := trace p @ [TaskDone]\<rparr>"
  by (simp add: karma_callback_handle karma_callback_undefined)

theorem server_stopped_before_done_witness:
  "status \<lparr>status = Running, trace = [ConsoleLog (js ''Starting unit tests...'')]\<rparr> = Running
   \<and> karma_callback (Bound Handle) 1
        \<lparr>status = Running, trace = [ConsoleLog (js ''Starting unit tests...'')]\<rparr>
      = \<lparr>status = Running,
         trace = [ConsoleLog (js ''Starting unit tests...''), ServerStop, TaskDone]\<rparr>
   \<and> karma_callback (Bound Undefined) 1
        \<lparr>status = Running, trace = [ConsoleLog (js ''Starting unit tests...'')]\<rparr>
      = \<lparr>status = Running, trace = [ConsoleLog (js ''Starting unit tests...''), TaskDone]\<rparr>"
  using server_stopped_before_done[of
      "\<lparr>status = Running, trace = [ConsoleLog (js ''Starting unit tests...'')]\<rparr>" 1]
  by simp

section \<open>Claims about the task graph\<close>

lemma gulpfile_lookup:
  "gulpfile ''lint'' = Some ([], Body)"
  "gulpfile ''test:spec'' = Some ([''lint''], Body)"
  "gulpfile ''test:e2e'' = Some ([], Body)"
  "gulpfile ''test'' = Some ([''test:spec''], Gulp_start ''test:e2e'')"
  by (simp_all add: gulpfile_def gulp_task_def)

lemma sequence_test:
  "sequence (Suc (Suc (Suc (Suc n)))) gulpfile [''test''] [] = Some [''lint'', ''test:spec'', ''test'']"
  by (simp add: gulpfile_lookup)

lemma sequence_e2e:
  "sequence (Suc (Suc n)) gulpfile [''test:e2e''] [] = Some [''test:e2e'']"
  by (simp add: gulpfile_lookup)

lemma run_test:
  assumes "\<not> fails ''lint''" "\<not> fails ''test:spec''" "\<not> fails ''test''"
  shows "run (n + 4) gulpfile fails ''test'' =
     Some ([Started ''lint'', Finished ''lint'', Started ''test:spec'', Finished ''test:spec'',
            Started ''test'', Started ''test:e2e''] @
           (if fails ''test:e2e'' then [Failed ''test:e2e'']
            else [Finished ''test:e2e'', Finished ''test'']))"
proof -
  have n: "n + 4 = Suc (Suc (Suc (Suc n)))" by simp
  show ?thesis
    unfolding n run_def sequence_test
    using assms
    by (simp add: gulpfile_lookup sequence_e2e aborted_def)
qed

text \<open>
  Claim C9: the task \<open>test\<close> declares \<open>test:spec\<close> as its only prerequisite and its
  action starts \<open>test:e2e\<close>; in a run of \<open>test\<close> the task \<open>test:spec\<close> has
  finished before \<open>test:e2e\<close> starts, also when \<open>test:e2e\<close> then fails.
\<close>

theorem test_chains_e2e:
  "prerequisites gulpfile ''test'' = Some [''test:spec'']
   \<and> action_of gulpfile ''test'' = Some (Gulp_start ''test:e2e'')
   \<and> (\<not> fails ''lint'' \<and> \<not> fails ''test:spec'' \<and> \<not> fails ''test'' \<longrightarrow>
      run (n + 4) gulpfile fails ''test'' =
        Some ([Started ''lint'', Finished ''lint'', Started ''test:spec'',
               Finished ''test:spec'', Started ''test'', Started ''test:e2e''] @
              (if fails ''test:e2e'' then [Failed ''test:e2e'']
               else [Finished ''test:e2e'', Finished ''test''])))"
  using run_test[of fails n]
  by (simp add: prerequisites_def action_of_def gulpfile_lookup)

theorem test_chains_e2e_witness:
  "\<not> (''lint'' = ''test:e2e'') \<and> \<not> (''test:spec'' = ''test:e2e'') \<and> \<not> (''test'' = ''test:e2e'')
   \<and> run 4 gulpfile (\<lambda>t. t = ''test:e2e'') ''test'' =
        Some [Started ''lint'', Finished ''lint'', Started ''test:spec'',
              Finished ''test:spec'', Started ''test'', Started ''test:e2e'',
              Failed ''test:e2e'']"
  using test_chains_e2e[of "\<lambda>t. t = ''test:e2e''" 0]
  by simp

end
